theory Spec2Isabelle
  imports Main
begin

section \<open>Data model of \<^verbatim>\<open>idynamic.py\<close>\<close>

text \<open>
  Job identifiers are Python integers. \<^verbatim>\<open>slurm_submit\<close> returns \<open>-1\<close> (or whatever
  integer it parsed) when a submission fails, so every integer can occur.
\<close>

type_synonym job_id = int

text \<open>The state tokens of class \<^verbatim>\<open>JobState\<close>.\<close>

definition RUNNING :: string where [simp]: "RUNNING = ''RUNNING''"
definition SUSPENDED :: string where [simp]: "SUSPENDED = ''SUSPENDED''"
definition COMPLETED :: string where [simp]: "COMPLETED = ''COMPLETED''"
definition TIMEOUT :: string where [simp]: "TIMEOUT = ''TIMEOUT''"
definition COMPLETING :: string where [simp]: "COMPLETING = ''COMPLETING''"
definition PENDING :: string where [simp]: "PENDING = ''PENDING''"

definition JOB_COMMAND :: string where
  [simp]: "JOB_COMMAND = ''mpiexec -n $SLURM_JOB_CPUS_PER_NODE ipengine''"

text \<open>
  What the program does to the outside world is kept as a list of events, oldest first.
  A log line is kept by the statement that printed it together with the values that go
  into its format string; the time stamp that \<^verbatim>\<open>log\<close> prepends is left out.
\<close>

datatype log_line =
    Blank
  | CaughtInterruptCancelling "job_id list"
  | CaughtInterruptExiting
  | CompletedJobs "job_id list"
  | MissingJobs "job_id list"
  | StatusSubmit int int int int
  | Submitted int int job_id
  | SubmissionFailed int int
  | StatusWait int int int int int
  | Status int int int
  | UnknownJobState string job_id

datatype event =
    Log log_line
  | WriteJobDescription int string
  | SlurmSubmit int
  | SlurmKill job_id bool

text \<open>
  \<open>WriteJobDescription pid command\<close>: the file \<^verbatim>\<open>job_idynamic.<pid>\<close> was written with
  \<^verbatim>\<open>_JOB_DESC\<close>, the command and a newline. \<open>SlurmSubmit r\<close>: \<^verbatim>\<open>slurm_submit\<close> was
  called and returned \<open>r\<close>. \<open>SlurmKill j ok\<close>: \<^verbatim>\<open>pyslurm.slurm_kill_job\<close> was called for
  \<open>j\<close>; \<open>ok\<close> is false when the \<^verbatim>\<open>except\<close> clause of \<^verbatim>\<open>kill_job\<close> caught something.
\<close>

datatype error = KeyError job_id

text \<open>
  The fields of a \<^verbatim>\<open>QueueManager\<close>. The Python set \<^verbatim>\<open>submitted_jobs\<close> is a list
  without duplicates; the order of the list is the order in which Python iterates over
  the set. The properties below hold for every order of the list, and every operation
  keeps the list free of duplicates (\<open>distinct\<close>); where \<^verbatim>\<open>add\<close> puts a new member (here:
  in front) is used by no proof. \<open>events\<close> is the history of effects, not a field of the
  Python object.
\<close>

record manager =
  profile :: "string option"
  profile_dir :: "string option"
  n_wanted :: int
  max_n_queued :: int
  verbose :: int
  pid :: int
  submitted_jobs :: "job_id list"
  events :: "event list"

text \<open>
  The scheduler as seen during one cycle. \<open>find_id w j\<close> is \<open>None\<close> when
  \<^verbatim>\<open>slurm_jobs.find_id(j)\<close> returns an empty record, and \<open>Some tok\<close> when the record
  is non-empty with \<^verbatim>\<open>job_state\<close> equal to \<open>tok\<close>. \<open>slurm_kill_job w j\<close> is false when
  the \<^verbatim>\<open>except\<close> clause of \<^verbatim>\<open>kill_job\<close> catches something during the call for \<open>j\<close>.
  \<open>slurm_submit w i\<close> is what the call of \<^verbatim>\<open>slurm_submit\<close> in iteration \<open>i\<close> of the
  submission loop returns. What happens inside these two calls, an interrupt included,
  is told apart in the section on the loop and its interrupts.
\<close>

record world =
  find_id :: "job_id \<Rightarrow> string option"
  slurm_kill_job :: "job_id \<Rightarrow> bool"
  slurm_submit :: "nat \<Rightarrow> int"

section \<open>Operations\<close>

definition init :: "string option \<Rightarrow> string option \<Rightarrow> int \<Rightarrow> int \<Rightarrow> int \<Rightarrow> int \<Rightarrow> manager" where
  "init p pd n q v pgid =
     \<lparr>profile = p, profile_dir = pd, n_wanted = n, max_n_queued = q, verbose = v,
      pid = pgid, submitted_jobs = [], events = []\<rparr>"

definition log_line :: "log_line \<Rightarrow> manager \<Rightarrow> manager" where
  "log_line l s = s\<lparr>events := events s @ [Log l]\<rparr>"

text \<open>
  \<^verbatim>\<open>submit_job\<close>: \<open>reply\<close> is the value \<^verbatim>\<open>slurm_submit\<close> returns for this call;
  \<^verbatim>\<open>slurm_submit\<close> catches every exception of its own and returns \<open>-1\<close> then. Writing
  the job description to the local file is taken to succeed.
\<close>

definition submit_job :: "int \<Rightarrow> manager \<Rightarrow> int \<times> manager" where
  "submit_job reply s =
     (let command = JOB_COMMAND;
          command = (case profile s of None \<Rightarrow> command
                     | Some p \<Rightarrow> command @ '' --profile='' @ p);
          command = (case profile_dir s of None \<Rightarrow> command
                     | Some d \<Rightarrow> command @ '' --profile-dir='' @ d);
          s1 = s\<lparr>events := events s @ [WriteJobDescription (pid s) command]\<rparr>;
          job_id = reply;
          s2 = s1\<lparr>events := events s1 @ [SlurmSubmit job_id]\<rparr>;
          s3 = (if job_id > 0
                then s2\<lparr>submitted_jobs := List.insert job_id (submitted_jobs s2)\<rparr>
                else s2)
      in (job_id, s3))"

text \<open>
  \<^verbatim>\<open>kill_job\<close>: \<^verbatim>\<open>set.remove\<close> raises \<^verbatim>\<open>KeyError\<close> on an absent element, before the
  scheduler is called. \<open>kill j\<close> is false when the \<^verbatim>\<open>except\<close> clause catches something
  during \<^verbatim>\<open>pyslurm.slurm_kill_job\<close>.
\<close>

definition kill_job :: "(job_id \<Rightarrow> bool) \<Rightarrow> job_id \<Rightarrow> manager \<Rightarrow> error + bool \<times> manager" where
  "kill_job kill job_id s =
     (if job_id \<notin> set (submitted_jobs s) then Inl (KeyError job_id)
      else
        (let s1 = s\<lparr>submitted_jobs := removeAll job_id (submitted_jobs s)\<rparr>;
             result = kill job_id;
             s2 = s1\<lparr>events := events s1 @ [SlurmKill job_id result]\<rparr>
         in Inr (result, s2)))"

text \<open>The loop \<^verbatim>\<open>for job_id in jobs : self.kill_job(job_id)\<close> of both callers.\<close>

fun kill_jobs :: "(job_id \<Rightarrow> bool) \<Rightarrow> job_id list \<Rightarrow> manager \<Rightarrow> error + manager" where
  "kill_jobs kill [] s = Inr s"
| "kill_jobs kill (job_id # jobs) s =
     (case kill_job kill job_id s of
        Inl e \<Rightarrow> Inl e
      | Inr (_, s') \<Rightarrow> kill_jobs kill jobs s')"

text \<open>
  \<^verbatim>\<open>get_submitted_job_info\<close>: one pass of the loop body, on the four lists and the events.
\<close>

type_synonym job_lists = "job_id list \<times> job_id list \<times> job_id list \<times> job_id list"

definition job_info_step ::
  "(job_id \<Rightarrow> string option) \<Rightarrow> job_lists \<times> event list \<Rightarrow> job_id \<Rightarrow> job_lists \<times> event list" where
  "job_info_step lookup acc job_id =
     (case acc of ((running_ids, queued_ids, completed_ids, missing_ids), ev) \<Rightarrow>
        (case lookup job_id of
           None \<Rightarrow> ((running_ids, queued_ids, completed_ids, missing_ids @ [job_id]), ev)
         | Some job_state \<Rightarrow>
             if job_state \<in> set [RUNNING, SUSPENDED]
             then ((running_ids @ [job_id], queued_ids, completed_ids, missing_ids), ev)
             else if job_state = PENDING
             then ((running_ids, queued_ids @ [job_id], completed_ids, missing_ids), ev)
             else if job_state \<in> set [COMPLETED, COMPLETING, TIMEOUT]
             then ((running_ids, queued_ids, completed_ids @ [job_id], missing_ids), ev)
             else ((running_ids, queued_ids, completed_ids, missing_ids),
                   ev @ [Log (UnknownJobState job_state job_id)])))"

definition get_submitted_job_info ::
  "(job_id \<Rightarrow> string option) \<Rightarrow> manager \<Rightarrow> job_lists \<times> manager" where
  "get_submitted_job_info lookup s =
     (case foldl (job_info_step lookup) (([], [], [], []), events s) (submitted_jobs s) of
        (ids, ev) \<Rightarrow> (ids, s\<lparr>events := ev\<rparr>))"

text \<open>The body of \<^verbatim>\<open>for i in range(n_submit)\<close> in \<^verbatim>\<open>poll\<close>.\<close>

definition submit_step :: "(nat \<Rightarrow> int) \<Rightarrow> int \<Rightarrow> manager \<Rightarrow> nat \<Rightarrow> manager" where
  "submit_step submit n_submit s i =
     (case submit_job (submit i) s of
        (job_id, s1) \<Rightarrow>
          if job_id > 0 then log_line (Submitted (int i + 1) n_submit job_id) s1
          else log_line (SubmissionFailed (int i + 1) n_submit) s1)"

definition submit_loop :: "(nat \<Rightarrow> int) \<Rightarrow> int \<Rightarrow> manager \<Rightarrow> manager" where
  "submit_loop submit n_submit s = foldl (submit_step submit n_submit) s [0..<nat n_submit]"

definition poll :: "world \<Rightarrow> manager \<Rightarrow> error + manager" where
  "poll w s =
     (case get_submitted_job_info (find_id w) s of
        ((running_ids, queued_ids, completed_ids, missing_ids), s1) \<Rightarrow>
          (let n_running = int (length running_ids);
               n_queued = int (length queued_ids)
           in case kill_jobs (slurm_kill_job w) (completed_ids @ missing_ids) s1 of
                Inl e \<Rightarrow> Inl e
              | Inr s2 \<Rightarrow>
                  (let s3 = (if length completed_ids > 0
                             then log_line (CompletedJobs completed_ids) s2 else s2);
                       s4 = (if length missing_ids > 0
                             then log_line (MissingJobs missing_ids) s3 else s3)
                   in if n_running + n_queued < n_wanted s4 \<and> n_queued < max_n_queued s4
                      then
                        (if n_queued < max_n_queued s4
                         then
                           (let n_submit = min (n_wanted s4 - (n_running + n_queued))
                                               (max_n_queued s4 - n_queued);
                                s5 = log_line (StatusSubmit n_running n_queued
                                                 (n_wanted s4) n_submit) s4
                            in Inr (submit_loop (slurm_submit w) n_submit s5))
                         else
                           (if verbose s4 \<ge> 1
                            then Inr (log_line (StatusWait n_running n_queued (n_wanted s4)
                                                  n_queued (max_n_queued s4)) s4)
                            else Inr s4))
                      else
                        (if verbose s4 \<ge> 2
                         then Inr (log_line (Status n_running n_queued (n_wanted s4)) s4)
                         else Inr s4))))"

text \<open>The handler of \<^verbatim>\<open>KeyboardInterrupt\<close> in \<^verbatim>\<open>infinite_poll\<close>.\<close>

definition on_interrupt :: "(job_id \<Rightarrow> bool) \<Rightarrow> manager \<Rightarrow> error + manager" where
  "on_interrupt kill s =
     (let jobs = submitted_jobs s;
          n_jobs = length jobs;
          s1 = log_line Blank s
      in if n_jobs > 0
         then kill_jobs kill jobs (log_line (CaughtInterruptCancelling jobs) s1)
         else Inr (log_line CaughtInterruptExiting s1))"

section \<open>Auxiliary definitions\<close>

subsection \<open>The branches of the classification\<close>

text \<open>
  The branch conditions of the loop body of \<^verbatim>\<open>get_submitted_job_info\<close>, as predicates on a
  job identifier, and the line the last branch logs.
\<close>

definition is_running :: "(job_id \<Rightarrow> string option) \<Rightarrow> job_id \<Rightarrow> bool" where
  "is_running f j \<longleftrightarrow> f j = Some RUNNING \<or> f j = Some SUSPENDED"

definition is_queued :: "(job_id \<Rightarrow> string option) \<Rightarrow> job_id \<Rightarrow> bool" where
  "is_queued f j \<longleftrightarrow> f j = Some PENDING"

definition is_completed :: "(job_id \<Rightarrow> string option) \<Rightarrow> job_id \<Rightarrow> bool" where
  "is_completed f j \<longleftrightarrow> f j = Some COMPLETED \<or> f j = Some COMPLETING \<or> f j = Some TIMEOUT"

definition is_missing :: "(job_id \<Rightarrow> string option) \<Rightarrow> job_id \<Rightarrow> bool" where
  "is_missing f j \<longleftrightarrow> f j = None"

definition unknown_state_log :: "(job_id \<Rightarrow> string option) \<Rightarrow> job_id \<Rightarrow> event list" where
  "unknown_state_log f j =
     (case f j of None \<Rightarrow> []
      | Some st \<Rightarrow> if st \<in> set [RUNNING, SUSPENDED, PENDING, COMPLETED, COMPLETING, TIMEOUT]
                   then [] else [Log (UnknownJobState st j)])"

subsection \<open>Observations on the history\<close>

text \<open>
  Observations on a history of events: the values returned by the calls of
  \<^verbatim>\<open>slurm_submit\<close>, and the identifiers \<^verbatim>\<open>pyslurm.slurm_kill_job\<close> was called for, both
  in the order of the calls.
\<close>

fun submissions :: "event list \<Rightarrow> int list" where
  "submissions [] = []"
| "submissions (SlurmSubmit r # es) = r # submissions es"
| "submissions (_ # es) = submissions es"

fun kills :: "event list \<Rightarrow> job_id list" where
  "kills [] = []"
| "kills (SlurmKill j _ # es) = j # kills es"
| "kills (_ # es) = kills es"

subsection \<open>The effects of a cycle in closed form\<close>

text \<open>
  The command \<^verbatim>\<open>submit_job\<close> writes, the events of one iteration of the submission loop,
  its effect on the registry, the events of the cleanup, and the state after it.
\<close>

definition job_command :: "manager \<Rightarrow> string" where
  "job_command s =
     (let command = JOB_COMMAND;
          command = (case profile s of None \<Rightarrow> command
                     | Some p \<Rightarrow> command @ '' --profile='' @ p)
      in (case profile_dir s of None \<Rightarrow> command
          | Some d \<Rightarrow> command @ '' --profile-dir='' @ d))"

definition submit_events :: "int \<Rightarrow> string \<Rightarrow> int \<Rightarrow> (nat \<Rightarrow> int) \<Rightarrow> nat \<Rightarrow> event list" where
  "submit_events p c n sub i =
     [WriteJobDescription p c, SlurmSubmit (sub i),
      Log (if sub i > 0 then Submitted (int i + 1) n (sub i)
           else SubmissionFailed (int i + 1) n)]"

definition add_job :: "(nat \<Rightarrow> int) \<Rightarrow> job_id list \<Rightarrow> nat \<Rightarrow> job_id list" where
  "add_job sub xs i = (if sub i > 0 then List.insert (sub i) xs else xs)"

definition cleanup_events :: "world \<Rightarrow> job_id list \<Rightarrow> event list" where
  "cleanup_events w reg =
     concat (map (unknown_state_log (find_id w)) reg)
     @ map (\<lambda>j. SlurmKill j (slurm_kill_job w j))
         (filter (is_completed (find_id w)) reg @ filter (is_missing (find_id w)) reg)
     @ (if filter (is_completed (find_id w)) reg \<noteq> []
        then [Log (CompletedJobs (filter (is_completed (find_id w)) reg))] else [])
     @ (if filter (is_missing (find_id w)) reg \<noteq> []
        then [Log (MissingJobs (filter (is_missing (find_id w)) reg))] else [])"

definition after_cleanup :: "world \<Rightarrow> manager \<Rightarrow> manager" where
  "after_cleanup w s =
     s\<lparr>submitted_jobs :=
         filter (\<lambda>j. \<not> is_completed (find_id w) j \<and> \<not> is_missing (find_id w) j)
           (submitted_jobs s),
       events := events s @ cleanup_events w (submitted_jobs s)\<rparr>"

text \<open>
  The counts \<^verbatim>\<open>poll\<close> takes from the lists, the guard of its top-up, the number of
  submissions it plans (\<open>0\<close> when the guard fails), and the status line it prints.
\<close>

definition n_running :: "world \<Rightarrow> manager \<Rightarrow> int" where
  "n_running w s = int (length (filter (is_running (find_id w)) (submitted_jobs s)))"

definition n_queued :: "world \<Rightarrow> manager \<Rightarrow> int" where
  "n_queued w s = int (length (filter (is_queued (find_id w)) (submitted_jobs s)))"

definition top_up :: "world \<Rightarrow> manager \<Rightarrow> bool" where
  "top_up w s \<longleftrightarrow>
     n_running w s + n_queued w s < n_wanted s \<and> n_queued w s < max_n_queued s"

definition planned :: "world \<Rightarrow> manager \<Rightarrow> int" where
  "planned w s =
     (if top_up w s
      then min (n_wanted s - (n_running w s + n_queued w s)) (max_n_queued s - n_queued w s)
      else 0)"

definition status_events :: "world \<Rightarrow> manager \<Rightarrow> event list" where
  "status_events w s =
     (if top_up w s
      then [Log (StatusSubmit (n_running w s) (n_queued w s) (n_wanted s) (planned w s))]
      else if verbose s \<ge> 2 then [Log (Status (n_running w s) (n_queued w s) (n_wanted s))]
      else [])"

text \<open>The events of the top-up of a cycle: the status line and the submissions.\<close>

definition top_up_events :: "world \<Rightarrow> manager \<Rightarrow> event list" where
  "top_up_events w s =
     status_events w s
     @ concat (map (submit_events (pid s) (job_command s) (planned w s) (slurm_submit w))
                 [0..<nat (planned w s)])"

section \<open>The loop and its interrupts\<close>

subsection \<open>Calls of the scheduler\<close>

text \<open>
  A call of the scheduler returns, raises an exception of its own, or is in progress
  when a \<^verbatim>\<open>KeyboardInterrupt\<close> arrives. \<^verbatim>\<open>kill_job\<close> calls \<^verbatim>\<open>pyslurm.slurm_kill_job\<close> inside
  \<^verbatim>\<open>try\<close> with a bare \<^verbatim>\<open>except\<close> (lines 140 to 145), and \<^verbatim>\<open>slurm_submit\<close> runs \<^verbatim>\<open>sbatch\<close> and
  reads its output the same way (lines 178 to 189). The program is Python 2, where a
  bare \<^verbatim>\<open>except\<close> catches \<^verbatim>\<open>KeyboardInterrupt\<close> as well. \<open>try_kill\<close> is the \<^verbatim>\<open>result\<close> that
  \<^verbatim>\<open>kill_job\<close> computes, \<open>try_submit\<close> is the value \<^verbatim>\<open>slurm_submit\<close> returns, and \<open>observed\<close>
  is the scheduler as the rest of the manager sees it.
\<close>

datatype 'a call = Returns 'a | Raises | InterruptedCall

definition try_kill :: "unit call \<Rightarrow> bool" where
  "try_kill c = (case c of Returns _ \<Rightarrow> True | Raises \<Rightarrow> False | InterruptedCall \<Rightarrow> False)"

definition try_submit :: "int call \<Rightarrow> int" where
  "try_submit c =
     (case c of Returns job_id \<Rightarrow> job_id | Raises \<Rightarrow> - 1 | InterruptedCall \<Rightarrow> - 1)"

record scheduler =
  job_record :: "job_id \<Rightarrow> string option"
  kill_call :: "job_id \<Rightarrow> unit call"
  submit_call :: "nat \<Rightarrow> int call"

definition observed :: "scheduler \<Rightarrow> world" where
  "observed c =
     \<lparr>find_id = job_record c,
      slurm_kill_job = (\<lambda>j. try_kill (kill_call c j)),
      slurm_submit = (\<lambda>i. try_submit (submit_call c i))\<rparr>"

subsection \<open>A cycle, one effect at a time\<close>

text \<open>
  The effects of one \<^verbatim>\<open>poll\<close> in the order of the source. \<open>Emit e\<close> adds an event to the
  history: a log line, the written file, a call of \<^verbatim>\<open>slurm_submit\<close> or a call of
  \<^verbatim>\<open>pyslurm.slurm_kill_job\<close> with what the manager sees of it. \<open>Remove j\<close> is the
  \<^verbatim>\<open>set.remove\<close> of \<^verbatim>\<open>kill_job\<close>, which comes before the call of the scheduler.
  \<open>AddReturned\<close> is the \<^verbatim>\<open>add\<close> of \<^verbatim>\<open>submit_job\<close>: the local variable \<^verbatim>\<open>job_id\<close> holds the value
  of the last call of \<^verbatim>\<open>slurm_submit\<close>. \<open>actions w s\<close> lists the effects of the cycle that
  starts in \<open>s\<close> against the scheduler \<open>w\<close>: the log lines of the query, per killed job
  the removal and the call, the two lines about completed and missing jobs, the status
  line, and per submission the file, the call, the \<^verbatim>\<open>add\<close> and the log line. Running all of
  them is \<^verbatim>\<open>poll\<close> (lemma \<open>run_actions\<close>). An interrupt that is not caught inside
  \<^verbatim>\<open>kill_job\<close> or \<^verbatim>\<open>slurm_submit\<close> ends the cycle after the first \<open>n\<close> of them.
\<close>

datatype action = Emit event | Remove job_id | AddReturned

fun do_action :: "action \<Rightarrow> manager \<Rightarrow> error + manager" where
  "do_action (Emit e) s = Inr (s\<lparr>events := events s @ [e]\<rparr>)"
| "do_action (Remove job_id) s =
     (if job_id \<notin> set (submitted_jobs s) then Inl (KeyError job_id)
      else Inr (s\<lparr>submitted_jobs := removeAll job_id (submitted_jobs s)\<rparr>))"
| "do_action AddReturned s =
     (if submissions (events s) = [] then Inr s
      else
        (let job_id = last (submissions (events s))
         in if job_id > 0
            then Inr (s\<lparr>submitted_jobs := List.insert job_id (submitted_jobs s)\<rparr>)
            else Inr s))"

fun run :: "action list \<Rightarrow> manager \<Rightarrow> error + manager" where
  "run [] s = Inr s"
| "run (a # as) s = (case do_action a s of Inl e \<Rightarrow> Inl e | Inr s' \<Rightarrow> run as s')"

definition kill_actions :: "(job_id \<Rightarrow> bool) \<Rightarrow> job_id \<Rightarrow> action list" where
  "kill_actions kill j = [Remove j, Emit (SlurmKill j (kill j))]"

definition submit_actions :: "int \<Rightarrow> string \<Rightarrow> int \<Rightarrow> (nat \<Rightarrow> int) \<Rightarrow> nat \<Rightarrow> action list" where
  "submit_actions p c n sub i =
     [Emit (WriteJobDescription p c), Emit (SlurmSubmit (sub i)), AddReturned,
      Emit (Log (if sub i > 0 then Submitted (int i + 1) n (sub i)
                 else SubmissionFailed (int i + 1) n))]"

definition actions :: "world \<Rightarrow> manager \<Rightarrow> action list" where
  "actions w s =
     (let completed_ids = filter (is_completed (find_id w)) (submitted_jobs s);
          missing_ids = filter (is_missing (find_id w)) (submitted_jobs s)
      in map Emit (concat (map (unknown_state_log (find_id w)) (submitted_jobs s)))
         @ concat (map (kill_actions (slurm_kill_job w)) (completed_ids @ missing_ids))
         @ map Emit ((if completed_ids \<noteq> [] then [Log (CompletedJobs completed_ids)] else [])
                     @ (if missing_ids \<noteq> [] then [Log (MissingJobs missing_ids)] else []))
         @ map Emit (status_events w s)
         @ concat (map (submit_actions (pid s) (job_command s) (planned w s) (slurm_submit w))
                     [0..<nat (planned w s)]))"

subsection \<open>The loop\<close>

text \<open>
  \<^verbatim>\<open>infinite_poll\<close> runs until it is interrupted. What happens around it is a schedule:
  \<open>Cycle w\<close> is one pass of the loop body (a \<^verbatim>\<open>poll\<close> against the scheduler \<open>w\<close>, then
  the sleep) during which no interrupt reaches the loop; \<open>Interrupt kill\<close> is a
  \<^verbatim>\<open>KeyboardInterrupt\<close> arriving at the sleep, with \<open>kill\<close> the scheduler's answers to the
  kill requests of the handler; \<open>InterruptedCycle w n kill\<close> is a \<^verbatim>\<open>KeyboardInterrupt\<close>
  arriving during a \<^verbatim>\<open>poll\<close> against \<open>w\<close>, after \<open>n\<close> effects of that cycle, at a place where
  nothing catches it before the loop does. An interrupt that arrives while
  \<^verbatim>\<open>pyslurm.slurm_kill_job\<close> or the \<^verbatim>\<open>sbatch\<close> of \<^verbatim>\<open>slurm_submit\<close> is in progress is caught
  there and never reaches the loop: it is part of the scheduler of a \<open>Cycle\<close> (see
  \<open>observed\<close>). A schedule that ends without an interrupt leaves the loop running:
  the result is \<open>None\<close>. An exception other than the interrupt leaves the loop through
  \<open>Inl\<close>. A second interrupt, arriving while the handler runs, is not part of a schedule.
\<close>

datatype tick =
    Cycle world
  | Interrupt "job_id \<Rightarrow> bool"
  | InterruptedCycle world nat "job_id \<Rightarrow> bool"

fun infinite_poll :: "tick list \<Rightarrow> manager \<Rightarrow> (error + manager) option" where
  "infinite_poll [] s = None"
| "infinite_poll (Cycle w # ts) s =
     (case poll w s of Inl e \<Rightarrow> Some (Inl e) | Inr s' \<Rightarrow> infinite_poll ts s')"
| "infinite_poll (Interrupt kill # ts) s = Some (on_interrupt kill s)"
| "infinite_poll (InterruptedCycle w n kill # ts) s =
     (case run (take n (actions w s)) s of
        Inl e \<Rightarrow> Some (Inl e)
      | Inr s' \<Rightarrow> Some (on_interrupt kill s'))"

section \<open>Reachable states, completed cycles and three runs\<close>

subsection \<open>Reachable states and completed cycles\<close>

text \<open>
  The states a manager can be in: the state \<^verbatim>\<open>__init__\<close> builds, and every state that one
  of the operations returns from a state the manager can be in. The operations that
  change the registry are \<^verbatim>\<open>submit_job\<close> and \<^verbatim>\<open>kill_job\<close>; the states inside a cycle or
  inside the interrupt handler are covered by their steps, and by the state after any
  number of effects of a cycle.
\<close>

inductive reachable :: "manager \<Rightarrow> bool" where
  start: "reachable (init p pd n q v pgid)"
| submitted: "reachable s \<Longrightarrow> reachable (snd (submit_job reply s))"
| killed: "reachable s \<Longrightarrow> kill_job k j s = Inr (b, s') \<Longrightarrow> reachable s'"
| logged: "reachable s \<Longrightarrow> reachable (log_line l s)"
| queried: "reachable s \<Longrightarrow> reachable (snd (get_submitted_job_info f s))"
| polled: "reachable s \<Longrightarrow> poll w s = Inr s' \<Longrightarrow> reachable s'"
| interrupted: "reachable s \<Longrightarrow> on_interrupt k s = Inr s' \<Longrightarrow> reachable s'"
| looped: "reachable s \<Longrightarrow> infinite_poll ts s = Some (Inr s') \<Longrightarrow> reachable s'"
| midcycle: "reachable s \<Longrightarrow> run (take n (actions w s)) s = Inr s' \<Longrightarrow> reachable s'"

text \<open>
  The registry has no duplicates, and each of its members is positive and was returned
  by a call of \<^verbatim>\<open>slurm_submit\<close> in the history of this manager.
\<close>

definition tracked :: "manager \<Rightarrow> bool" where
  "tracked s \<longleftrightarrow>
     distinct (submitted_jobs s)
     \<and> (\<forall>j \<in> set (submitted_jobs s). 0 < j \<and> SlurmSubmit j \<in> set (events s))"

text \<open>
  The cycles the loop of \<^verbatim>\<open>infinite_poll\<close> has completed, one \<^verbatim>\<open>poll\<close> per scheduler
  state, stopping at the first exception.
\<close>

fun cycles :: "world list \<Rightarrow> manager \<Rightarrow> error + manager" where
  "cycles [] s = Inr s"
| "cycles (w # ws) s = (case poll w s of Inl e \<Rightarrow> Inl e | Inr s' \<Rightarrow> cycles ws s')"

subsection \<open>Three runs\<close>

text \<open>
  A run used to evaluate the statements below: a manager that wants 5 engines and at
  most 4 queued jobs has submitted the jobs 1 to 4; the scheduler then reports job 1
  running, job 2 pending, job 3 completed and has no record of job 4, fails to kill
  job 4, and answers the three submissions of the cycle with 10, a failure and 12.
\<close>

definition example_manager :: manager where
  "example_manager =
     snd (submit_job 4 (snd (submit_job 3 (snd (submit_job 2 (snd (submit_job 1
       (init None None 5 4 0 4242))))))))"

definition example_world :: world where
  "example_world =
     \<lparr>find_id = (\<lambda>j. if j = 1 then Some RUNNING else if j = 2 then Some PENDING
                     else if j = 3 then Some COMPLETED else None),
      slurm_kill_job = (\<lambda>j. j \<noteq> 4),
      slurm_submit = (\<lambda>i. if i = 1 then - 1 else 10 + int i)\<rparr>"

text \<open>
  A second run: a manager that wants one engine has submitted job 7, and the scheduler
  reports job 7 in the state \<^verbatim>\<open>FAILED\<close>, which \<^verbatim>\<open>JobState\<close> does not list.
\<close>

definition failed_manager :: manager where
  "failed_manager = snd (submit_job 7 (init None None 1 1 0 4242))"

definition failed_world :: world where
  "failed_world =
     \<lparr>find_id = (\<lambda>j. Some ''FAILED''),
      slurm_kill_job = (\<lambda>j. True),
      slurm_submit = (\<lambda>i. 100 + int i)\<rparr>"

text \<open>
  A third run: the manager of the first run, with the same records at the scheduler; a
  \<^verbatim>\<open>KeyboardInterrupt\<close> arrives while the kill of job 3 is in progress, another one while
  the first \<^verbatim>\<open>sbatch\<close> of the top-up is in progress; the other calls return, the
  submissions with the identifiers 11 and 12.
\<close>

definition swallowing_scheduler :: scheduler where
  "swallowing_scheduler =
     \<lparr>job_record = find_id example_world,
      kill_call = (\<lambda>j. if j = 3 then InterruptedCall else Returns ()),
      submit_call = (\<lambda>i. if i = 0 then InterruptedCall else Returns (10 + int i))\<rparr>"

section \<open>The loops in closed form\<close>

lemma job_info_step_eq:
  "job_info_step f ((r, q, c, m), ev) j =
     ((r @ filter (is_running f) [j], q @ filter (is_queued f) [j],
       c @ filter (is_completed f) [j], m @ filter (is_missing f) [j]),
      ev @ unknown_state_log f j)"
  by (cases "f j")
     (auto simp: job_info_step_def is_running_def is_queued_def is_completed_def
        is_missing_def unknown_state_log_def)

lemma job_info_fold:
  "foldl (job_info_step f) ((r, q, c, m), ev) xs =
     ((r @ filter (is_running f) xs, q @ filter (is_queued f) xs,
       c @ filter (is_completed f) xs, m @ filter (is_missing f) xs),
      ev @ concat (map (unknown_state_log f) xs))"
proof (induction xs arbitrary: r q c m ev)
  case Nil
  show ?case by simp
next
  case (Cons x xs)
  show ?case
    by (simp only: foldl_Cons job_info_step_eq Cons.IH) simp
qed

lemma get_submitted_job_info_eq:
  "get_submitted_job_info f s =
     ((filter (is_running f) (submitted_jobs s), filter (is_queued f) (submitted_jobs s),
       filter (is_completed f) (submitted_jobs s), filter (is_missing f) (submitted_jobs s)),
      s\<lparr>events := events s @ concat (map (unknown_state_log f) (submitted_jobs s))\<rparr>)"
  by (simp add: get_submitted_job_info_def job_info_fold)

lemma filter_removeAll_notin:
  "filter (\<lambda>x. x \<notin> set js) (removeAll j xs) = filter (\<lambda>x. x \<notin> set (j # js)) xs"
  by (induction xs) auto

lemma kill_jobs_eq:
  "distinct js \<Longrightarrow> set js \<subseteq> set (submitted_jobs s) \<Longrightarrow>
   kill_jobs k js s =
     Inr (s\<lparr>submitted_jobs := filter (\<lambda>j. j \<notin> set js) (submitted_jobs s),
            events := events s @ map (\<lambda>j. SlurmKill j (k j)) js\<rparr>)"
proof (induction js arbitrary: s)
  case Nil
  show ?case by simp
next
  case (Cons j js)
  let ?s1 = "s\<lparr>submitted_jobs := removeAll j (submitted_jobs s),
               events := events s @ [SlurmKill j (k j)]\<rparr>"
  have kj: "kill_job k j s = Inr (k j, ?s1)"
    using Cons.prems by (simp add: kill_job_def Let_def)
  have sub: "set js \<subseteq> set (submitted_jobs ?s1)"
    using Cons.prems by auto
  have d: "distinct js" using Cons.prems by simp
  have f: "filter (\<lambda>x. x \<notin> set js) (removeAll j (submitted_jobs s))
             = filter (\<lambda>x. x \<notin> set (j # js)) (submitted_jobs s)"
    by (rule filter_removeAll_notin)
  show ?case
    by (simp add: kj Cons.IH [OF d sub] f del: set_simps) 
qed

lemma submissions_append: "submissions (xs @ ys) = submissions xs @ submissions ys"
  by (induction xs rule: submissions.induct) auto

lemma kills_append: "kills (xs @ ys) = kills xs @ kills ys"
  by (induction xs rule: kills.induct) auto

lemma submit_step_eq:
  "submit_step sub n s i =
     s\<lparr>submitted_jobs := add_job sub (submitted_jobs s) i,
       events := events s @ submit_events (pid s) (job_command s) n sub i\<rparr>"
  by (cases "profile s"; cases "profile_dir s")
     (simp_all add: submit_step_def submit_job_def log_line_def add_job_def submit_events_def
        job_command_def Let_def)

lemma job_command_update [simp]:
  "job_command (s\<lparr>submitted_jobs := xs\<rparr>) = job_command s"
  "job_command (s\<lparr>events := es\<rparr>) = job_command s"
  by (simp_all add: job_command_def)

lemma submit_fold:
  "foldl (submit_step sub n) s is =
     s\<lparr>submitted_jobs := foldl (add_job sub) (submitted_jobs s) is,
       events := events s @ concat (map (submit_events (pid s) (job_command s) n sub) is)\<rparr>"
proof (induction "is" arbitrary: s)
  case Nil
  show ?case by simp
next
  case (Cons i "is")
  have "foldl (submit_step sub n) s (i # is)
          = foldl (submit_step sub n) (submit_step sub n s i) is"
    by simp
  also have "\<dots> = (submit_step sub n s i)
      \<lparr>submitted_jobs := foldl (add_job sub) (submitted_jobs (submit_step sub n s i)) is,
       events := events (submit_step sub n s i)
         @ concat (map (submit_events (pid (submit_step sub n s i))
                          (job_command (submit_step sub n s i)) n sub) is)\<rparr>"
    by (rule Cons.IH)
  also have "\<dots> = s
      \<lparr>submitted_jobs := foldl (add_job sub) (submitted_jobs s) (i # is),
       events := events s
         @ concat (map (submit_events (pid s) (job_command s) n sub) (i # is))\<rparr>"
    by (simp add: submit_step_eq)
  finally show ?case .
qed

lemma set_add_jobs:
  "set (foldl (add_job sub) xs is) = set xs \<union> {sub i |i. i \<in> set is \<and> sub i > 0}"
  by (induction "is" arbitrary: xs) (auto simp: add_job_def)

lemma distinct_add_jobs: "distinct xs \<Longrightarrow> distinct (foldl (add_job sub) xs is)"
  by (induction "is" arbitrary: xs) (auto simp: add_job_def)

lemma length_add_jobs:
  "distinct (map sub (filter (\<lambda>i. sub i > 0) is)) \<Longrightarrow>
   \<forall>i \<in> set is. sub i > 0 \<longrightarrow> sub i \<notin> set xs \<Longrightarrow>
   length (foldl (add_job sub) xs is) = length xs + length (filter (\<lambda>i. sub i > 0) is)"
proof (induction "is" arbitrary: xs)
  case Nil
  show ?case by simp
next
  case (Cons i "is")
  show ?case
  proof (cases "sub i > 0")
    case True
    have fresh: "sub i \<notin> set xs" using Cons.prems(2) True by simp
    have d: "distinct (map sub (filter (\<lambda>i. sub i > 0) is))"
      using Cons.prems(1) True by simp
    have notin: "sub i \<notin> sub ` {k \<in> set is. sub k > 0}"
      using Cons.prems(1) True by simp
    have "\<forall>k \<in> set is. sub k > 0 \<longrightarrow> sub k \<noteq> sub i"
    proof (intro ballI impI)
      fix k
      assume "k \<in> set is" and "sub k > 0"
      then have "sub k \<in> sub ` {k \<in> set is. sub k > 0}"
        by blast
      with notin show "sub k \<noteq> sub i"
        by auto
    qed
    then have nin: "\<forall>k \<in> set is. sub k > 0 \<longrightarrow> sub k \<notin> set (sub i # xs)"
      using Cons.prems(2) by simp
    show ?thesis
      using True fresh Cons.IH [OF d nin] by (simp add: add_job_def)
  next
    case False
    then show ?thesis using Cons by (simp add: add_job_def)
  qed
qed

lemma submissions_submit_events:
  "submissions (concat (map (submit_events p c n sub) is)) = map sub is"
  by (induction "is") (auto simp: submit_events_def)

lemma kills_submit_events:
  "kills (concat (map (submit_events p c n sub) is)) = []"
  by (induction "is") (auto simp: submit_events_def)

lemma completed_not_missing: "is_completed f j \<Longrightarrow> \<not> is_missing f j"
  by (auto simp: is_completed_def is_missing_def)

lemma distinct_completed_missing:
  "distinct reg \<Longrightarrow> distinct (filter (is_completed f) reg @ filter (is_missing f) reg)"
  by (auto simp: completed_not_missing)

lemma filter_not_killed:
  "filter (\<lambda>j. j \<notin> set (filter (is_completed f) reg @ filter (is_missing f) reg)) reg
     = filter (\<lambda>j. \<not> is_completed f j \<and> \<not> is_missing f j) reg"
  by (rule filter_cong) auto

lemma cleanup_eq:
  assumes "distinct (submitted_jobs s)"
  shows "kill_jobs (slurm_kill_job w)
           (filter (is_completed (find_id w)) (submitted_jobs s)
            @ filter (is_missing (find_id w)) (submitted_jobs s))
           (s\<lparr>events := events s
                @ concat (map (unknown_state_log (find_id w)) (submitted_jobs s))\<rparr>)
         = Inr (s\<lparr>submitted_jobs :=
                   filter (\<lambda>j. \<not> is_completed (find_id w) j \<and> \<not> is_missing (find_id w) j)
                     (submitted_jobs s),
                  events := events s
                    @ concat (map (unknown_state_log (find_id w)) (submitted_jobs s))
                    @ map (\<lambda>j. SlurmKill j (slurm_kill_job w j))
                        (filter (is_completed (find_id w)) (submitted_jobs s)
                         @ filter (is_missing (find_id w)) (submitted_jobs s))\<rparr>)"
proof -
  let ?s1 = "s\<lparr>events := events s
                @ concat (map (unknown_state_log (find_id w)) (submitted_jobs s))\<rparr>"
  let ?js = "filter (is_completed (find_id w)) (submitted_jobs s)
            @ filter (is_missing (find_id w)) (submitted_jobs s)"
  have d: "distinct ?js"
    using assms by (rule distinct_completed_missing)
  have sub: "set ?js \<subseteq> set (submitted_jobs ?s1)"
    by auto
  have reg: "submitted_jobs ?s1 = submitted_jobs s"
    by simp
  have f: "filter (\<lambda>j. j \<notin> set ?js) (submitted_jobs ?s1)
             = filter (\<lambda>j. \<not> is_completed (find_id w) j \<and> \<not> is_missing (find_id w) j)
                 (submitted_jobs s)"
    by (simp only: reg filter_not_killed)
  show ?thesis
    by (simp only: kill_jobs_eq [OF d sub] f) simp
qed

lemma log_line_fields [simp]:
  "n_wanted (log_line l s) = n_wanted s"
  "max_n_queued (log_line l s) = max_n_queued s"
  "verbose (log_line l s) = verbose s"
  "pid (log_line l s) = pid s"
  "profile (log_line l s) = profile s"
  "profile_dir (log_line l s) = profile_dir s"
  "submitted_jobs (log_line l s) = submitted_jobs s"
  "events (log_line l s) = events s @ [Log l]"
  by (simp_all add: log_line_def)

lemma poll_cleanup:
  assumes "distinct (submitted_jobs s)"
  shows "(case get_submitted_job_info (find_id w) s of
            ((running_ids, queued_ids, completed_ids, missing_ids), s1) \<Rightarrow>
              (case kill_jobs (slurm_kill_job w) (completed_ids @ missing_ids) s1 of
                 Inl e \<Rightarrow> Inl e
               | Inr s2 \<Rightarrow>
                   Inr (if length missing_ids > 0
                        then log_line (MissingJobs missing_ids)
                               (if length completed_ids > 0
                                then log_line (CompletedJobs completed_ids) s2 else s2)
                        else (if length completed_ids > 0
                                then log_line (CompletedJobs completed_ids) s2 else s2))))
         = Inr (after_cleanup w s)"
  unfolding get_submitted_job_info_eq prod.case cleanup_eq [OF assms] sum.case
  by (simp add: log_line_def after_cleanup_def cleanup_events_def del: map_append)

lemma poll_eq:
  assumes "distinct (submitted_jobs s)"
  shows "poll w s =
    Inr (let n_running = int (length (filter (is_running (find_id w)) (submitted_jobs s)));
             n_queued = int (length (filter (is_queued (find_id w)) (submitted_jobs s)));
             n_submit = min (n_wanted s - (n_running + n_queued)) (max_n_queued s - n_queued);
             s4 = after_cleanup w s
         in if n_running + n_queued < n_wanted s \<and> n_queued < max_n_queued s
            then submit_loop (slurm_submit w) n_submit
                   (log_line (StatusSubmit n_running n_queued (n_wanted s) n_submit) s4)
            else if verbose s \<ge> 2
            then log_line (Status n_running n_queued (n_wanted s)) s4
            else s4)"
proof -
  let ?f = "find_id w"
  let ?reg = "submitted_jobs s"
  let ?c = "filter (is_completed ?f) ?reg"
  let ?m = "filter (is_missing ?f) ?reg"
  let ?s1 = "s\<lparr>events := events s @ concat (map (unknown_state_log ?f) ?reg)\<rparr>"
  obtain s2 where k: "kill_jobs (slurm_kill_job w) (?c @ ?m) ?s1 = Inr s2"
    using cleanup_eq [OF assms, of w] by blast
  let ?s3 = "if length ?c > 0 then log_line (CompletedJobs ?c) s2 else s2"
  let ?s4 = "if length ?m > 0 then log_line (MissingJobs ?m) ?s3 else ?s3"
  have s4: "?s4 = after_cleanup w s"
    using poll_cleanup [OF assms, of w]
    unfolding get_submitted_job_info_eq prod.case k sum.case by simp
  have cfg: "n_wanted ?s4 = n_wanted s" "max_n_queued ?s4 = max_n_queued s"
            "verbose ?s4 = verbose s"
    unfolding s4 by (simp_all add: after_cleanup_def)
  show ?thesis
    unfolding poll_def get_submitted_job_info_eq prod.case Let_def k sum.case s4 cfg
      [unfolded s4]
    by simp
qed

lemma after_cleanup_fields [simp]:
  "n_wanted (after_cleanup w s) = n_wanted s"
  "max_n_queued (after_cleanup w s) = max_n_queued s"
  "verbose (after_cleanup w s) = verbose s"
  "pid (after_cleanup w s) = pid s"
  "job_command (after_cleanup w s) = job_command s"
  by (simp_all add: after_cleanup_def)

lemma job_command_log_line [simp]: "job_command (log_line l s) = job_command s"
  by (simp add: log_line_def)

lemma submit_loop_eq:
  "submit_loop sub n s =
     s\<lparr>submitted_jobs := foldl (add_job sub) (submitted_jobs s) [0..<nat n],
       events := events s @ concat (map (submit_events (pid s) (job_command s) n sub) [0..<nat n])\<rparr>"
  by (simp only: submit_loop_def submit_fold)

lemma poll_eq_planned:
  assumes "distinct (submitted_jobs s)"
  shows "poll w s =
    Inr (if top_up w s
         then submit_loop (slurm_submit w) (planned w s)
                (log_line (StatusSubmit (n_running w s) (n_queued w s) (n_wanted s) (planned w s))
                   (after_cleanup w s))
         else if verbose s \<ge> 2
         then log_line (Status (n_running w s) (n_queued w s) (n_wanted s)) (after_cleanup w s)
         else after_cleanup w s)"
  unfolding poll_eq [OF assms]
  by (simp add: Let_def planned_def top_up_def n_running_def n_queued_def)

lemma poll_result:
  assumes "distinct (submitted_jobs s)"
  shows "poll w s =
    Inr (s\<lparr>submitted_jobs :=
             foldl (add_job (slurm_submit w))
               (filter (\<lambda>j. \<not> is_completed (find_id w) j \<and> \<not> is_missing (find_id w) j)
                  (submitted_jobs s))
               [0..<nat (planned w s)],
           events := events s @ cleanup_events w (submitted_jobs s) @ status_events w s
             @ concat (map (submit_events (pid s) (job_command s) (planned w s) (slurm_submit w))
                         [0..<nat (planned w s)])\<rparr>)"
proof (cases "top_up w s")
  case True
  then show ?thesis
    unfolding poll_eq_planned [OF assms] submit_loop_eq
    by (simp add: status_events_def after_cleanup_def)
next
  case False
  then have "planned w s = 0"
    by (simp add: planned_def)
  with False show ?thesis
    unfolding poll_eq_planned [OF assms]
    by (simp add: status_events_def after_cleanup_def log_line_def)
qed

lemma submissions_unknown_log: "submissions (concat (map (unknown_state_log f) xs)) = []"
  by (induction xs) (auto simp: unknown_state_log_def submissions_append split: option.splits)

lemma kills_unknown_log: "kills (concat (map (unknown_state_log f) xs)) = []"
  by (induction xs) (auto simp: unknown_state_log_def kills_append split: option.splits)

lemma submissions_kill_events: "submissions (map (\<lambda>j. SlurmKill j (k j)) js) = []"
  by (induction js) auto

lemma kills_kill_events: "kills (map (\<lambda>j. SlurmKill j (k j)) js) = js"
  by (induction js) auto

lemma submissions_cleanup_events: "submissions (cleanup_events w reg) = []"
  by (simp add: cleanup_events_def submissions_append submissions_unknown_log
        submissions_kill_events del: map_append)

lemma kills_cleanup_events:
  "kills (cleanup_events w reg)
     = filter (is_completed (find_id w)) reg @ filter (is_missing (find_id w)) reg"
  by (simp add: cleanup_events_def kills_append kills_unknown_log kills_kill_events
        del: map_append)

lemma submissions_status_events: "submissions (status_events w s) = []"
  by (simp add: status_events_def)

lemma kills_status_events: "kills (status_events w s) = []"
  by (simp add: status_events_def)

lemma planned_bounds:
  assumes "top_up w s"
  shows "1 \<le> planned w s" and "planned w s \<le> max_n_queued s - n_queued w s"
  using assms by (auto simp: planned_def top_up_def)

lemma job_lists_eq:
  assumes "get_submitted_job_info f s = ((r, q, c, m), s1)"
  shows "r = filter (is_running f) (submitted_jobs s)"
    and "q = filter (is_queued f) (submitted_jobs s)"
    and "c = filter (is_completed f) (submitted_jobs s)"
    and "m = filter (is_missing f) (submitted_jobs s)"
    and "s1 = s\<lparr>events := events s @ concat (map (unknown_state_log f) (submitted_jobs s))\<rparr>"
  using assms unfolding get_submitted_job_info_eq by simp_all

lemma buckets_exclusive:
  "\<not> (is_running f j \<and> is_queued f j)"
  "\<not> (is_running f j \<and> is_completed f j)"
  "\<not> (is_running f j \<and> is_missing f j)"
  "\<not> (is_queued f j \<and> is_completed f j)"
  "\<not> (is_queued f j \<and> is_missing f j)"
  "\<not> (is_completed f j \<and> is_missing f j)"
  by (auto simp: is_running_def is_queued_def is_completed_def is_missing_def)

lemma filter_disjoint:
  "\<forall>x. \<not> (P x \<and> Q x) \<Longrightarrow> set (filter P xs) \<inter> set (filter Q xs) = {}"
  by auto

lemma kill_jobs_prefix:
  assumes "distinct js" and "set js \<subseteq> set (submitted_jobs s)" and "js = pre @ j # post"
  shows "\<exists>t. kill_jobs k pre s = Inr t \<and> j \<in> set (submitted_jobs t)
              \<and> (\<exists>b t'. kill_job k j t = Inr (b, t'))"
proof -
  have d: "distinct pre" and sub: "set pre \<subseteq> set (submitted_jobs s)"
    and j: "j \<in> set (submitted_jobs s)" "j \<notin> set pre"
    using assms by auto
  let ?t = "s\<lparr>submitted_jobs := filter (\<lambda>x. x \<notin> set pre) (submitted_jobs s),
               events := events s @ map (\<lambda>x. SlurmKill x (k x)) pre\<rparr>"
  have "kill_jobs k pre s = Inr ?t"
    by (rule kill_jobs_eq [OF d sub])
  moreover have "j \<in> set (submitted_jobs ?t)"
    using j by simp
  moreover from this have "\<exists>b t'. kill_job k j ?t = Inr (b, t')"
    by (simp add: kill_job_def Let_def)
  ultimately show ?thesis
    by blast
qed

lemma submissions_top_up_events:
  "submissions (top_up_events w s) = map (slurm_submit w) [0..<nat (planned w s)]"
  by (simp only: top_up_events_def submissions_append submissions_status_events
        submissions_submit_events append_Nil)

lemma kills_top_up_events: "kills (top_up_events w s) = []"
  by (simp only: top_up_events_def kills_append kills_status_events kills_submit_events
        append_Nil)

lemma poll_summary:
  assumes "distinct (submitted_jobs s)"
  obtains s' where "poll w s = Inr s'"
    and "events s' = events s @ cleanup_events w (submitted_jobs s) @ top_up_events w s"
    and "submitted_jobs s' =
           foldl (add_job (slurm_submit w))
             (filter (\<lambda>j. \<not> is_completed (find_id w) j \<and> \<not> is_missing (find_id w) j)
                (submitted_jobs s))
             [0..<nat (planned w s)]"
    and "n_wanted s' = n_wanted s" and "max_n_queued s' = max_n_queued s"
    and "verbose s' = verbose s" and "pid s' = pid s"
    and "profile s' = profile s" and "profile_dir s' = profile_dir s"
proof -
  let ?s' = "s\<lparr>submitted_jobs :=
             foldl (add_job (slurm_submit w))
               (filter (\<lambda>j. \<not> is_completed (find_id w) j \<and> \<not> is_missing (find_id w) j)
                  (submitted_jobs s))
               [0..<nat (planned w s)],
           events := events s @ cleanup_events w (submitted_jobs s) @ status_events w s
             @ concat (map (submit_events (pid s) (job_command s) (planned w s) (slurm_submit w))
                         [0..<nat (planned w s)])\<rparr>"
  have p: "poll w s = Inr ?s'"
    by (rule poll_result [OF assms])
  show thesis
    by (rule that [of ?s', OF p]) (simp_all add: top_up_events_def)
qed

lemma planned_eq:
  assumes "get_submitted_job_info (find_id w) s = ((r, q, c, m), s1)"
  shows "planned w s =
           (if int (length r) + int (length q) < n_wanted s \<and> int (length q) < max_n_queued s
            then min (n_wanted s - (int (length r) + int (length q)))
                     (max_n_queued s - int (length q))
            else 0)"
  unfolding job_lists_eq(1,2) [OF assms]
  by (simp add: planned_def top_up_def n_running_def n_queued_def)

lemma running_queued_not_killed:
  assumes "get_submitted_job_info f s = ((r, q, c, m), s1)"
  shows "set r \<inter> set c = {}" and "set r \<inter> set m = {}"
    and "set q \<inter> set c = {}" and "set q \<inter> set m = {}"
  unfolding job_lists_eq(1-4) [OF assms]
  by (rule filter_disjoint, simp add: buckets_exclusive)+

lemma filter_not_killed_lists:
  assumes "get_submitted_job_info f s = ((r, q, c, m), s1)"
  shows "filter (\<lambda>j. \<not> is_completed f j \<and> \<not> is_missing f j) (submitted_jobs s)
           = filter (\<lambda>j. j \<notin> set (c @ m)) (submitted_jobs s)"
  unfolding job_lists_eq(3,4) [OF assms] by (rule filter_not_killed [symmetric])

lemma unknown_not_killed:
  assumes "f j = Some tok"
    and "tok \<notin> set [RUNNING, SUSPENDED, PENDING, COMPLETED, TIMEOUT, COMPLETING]"
  shows "\<not> is_completed f j" and "\<not> is_missing f j"
  using assms by (auto simp: is_completed_def is_missing_def)

lemma tracked_init: "tracked (init p pd n q v pgid)"
  by (simp add: tracked_def init_def)

lemma tracked_submit_job: "tracked s \<Longrightarrow> tracked (snd (submit_job reply s))"
  by (auto simp: tracked_def submit_job_def Let_def)

lemma tracked_kill_job: "tracked s \<Longrightarrow> kill_job k j s = Inr (b, s') \<Longrightarrow> tracked s'"
  by (auto simp: tracked_def kill_job_def Let_def distinct_removeAll split: if_splits)

lemma tracked_log_line: "tracked s \<Longrightarrow> tracked (log_line l s)"
  by (auto simp: tracked_def log_line_def)

lemma tracked_query: "tracked s \<Longrightarrow> tracked (snd (get_submitted_job_info f s))"
  by (auto simp: tracked_def get_submitted_job_info_eq)

lemma submit_event_mem:
  "i \<in> set is \<Longrightarrow> SlurmSubmit (sub i) \<in> set (concat (map (submit_events p c n sub) is))"
  by (induction "is") (auto simp: submit_events_def)

lemma tracked_poll:
  assumes "tracked s" and "poll w s = Inr s'"
  shows "tracked s'"
proof -
  have d: "distinct (submitted_jobs s)"
    using assms(1) by (simp add: tracked_def)
  obtain t where p: "poll w s = Inr t"
    and ev: "events t = events s @ cleanup_events w (submitted_jobs s) @ top_up_events w s"
    and reg: "submitted_jobs t =
                foldl (add_job (slurm_submit w))
                  (filter (\<lambda>j. \<not> is_completed (find_id w) j \<and> \<not> is_missing (find_id w) j)
                     (submitted_jobs s))
                  [0..<nat (planned w s)]"
    using poll_summary [OF d, of w] by blast
  have t: "t = s'"
    using p assms(2) by simp
  have dt: "distinct (submitted_jobs t)"
    unfolding reg using d by (intro distinct_add_jobs) simp
  have "0 < j \<and> SlurmSubmit j \<in> set (events t)" if "j \<in> set (submitted_jobs t)" for j
  proof -
    from that consider
        (old) "j \<in> set (submitted_jobs s)"
      | (new) i where "i \<in> set [0..<nat (planned w s)]" "j = slurm_submit w i" "0 < j"
      unfolding reg set_add_jobs by auto
    then show ?thesis
    proof cases
      case old
      then show ?thesis
        using assms(1) by (simp add: tracked_def ev)
    next
      case new
      have "SlurmSubmit (slurm_submit w i) \<in> set (top_up_events w s)"
        unfolding top_up_events_def using submit_event_mem [OF new(1)] by simp
      then show ?thesis
        using new by (simp add: ev)
    qed
  qed
  with dt show ?thesis
    unfolding t [symmetric] tracked_def by blast
qed

lemma on_interrupt_eq:
  assumes "distinct (submitted_jobs s)"
  shows "on_interrupt k s =
    Inr (s\<lparr>submitted_jobs := [],
           events := events s @ Log Blank
             # (if submitted_jobs s = [] then [Log CaughtInterruptExiting]
                else Log (CaughtInterruptCancelling (submitted_jobs s))
                     # map (\<lambda>j. SlurmKill j (k j)) (submitted_jobs s))\<rparr>)"
proof (cases "submitted_jobs s = []")
  case True
  then show ?thesis
    by (simp add: on_interrupt_def log_line_def)
next
  case False
  let ?s2 = "log_line (CaughtInterruptCancelling (submitted_jobs s)) (log_line Blank s)"
  have sub: "set (submitted_jobs s) \<subseteq> set (submitted_jobs ?s2)"
    by simp
  have "on_interrupt k s = kill_jobs k (submitted_jobs s) ?s2"
    using False by (simp add: on_interrupt_def Let_def)
  also have "\<dots> = Inr (?s2\<lparr>submitted_jobs :=
                            filter (\<lambda>j. j \<notin> set (submitted_jobs s)) (submitted_jobs ?s2),
                          events := events ?s2
                            @ map (\<lambda>j. SlurmKill j (k j)) (submitted_jobs s)\<rparr>)"
    by (rule kill_jobs_eq [OF assms sub])
  also have "\<dots> = Inr (s\<lparr>submitted_jobs := [],
           events := events s @ Log Blank
             # (if submitted_jobs s = [] then [Log CaughtInterruptExiting]
                else Log (CaughtInterruptCancelling (submitted_jobs s))
                     # map (\<lambda>j. SlurmKill j (k j)) (submitted_jobs s))\<rparr>)"
    using False by (simp add: log_line_def)
  finally show ?thesis .
qed

lemma tracked_on_interrupt:
  assumes "tracked s" and "on_interrupt k s = Inr s'"
  shows "tracked s'"
proof -
  have d: "distinct (submitted_jobs s)"
    using assms(1) by (simp add: tracked_def)
  show ?thesis
    using assms(2) unfolding on_interrupt_eq [OF d] by (auto simp: tracked_def)
qed

lemma run_append:
  "run (xs @ ys) s = (case run xs s of Inl e \<Rightarrow> Inl e | Inr t \<Rightarrow> run ys t)"
  by (induction xs arbitrary: s) (auto split: sum.splits)

lemma run_emits: "run (map Emit es) s = Inr (s\<lparr>events := events s @ es\<rparr>)"
  by (induction es arbitrary: s) auto

lemma run_kill_actions: "run (concat (map (kill_actions k) js)) s = kill_jobs k js s"
  by (induction js arbitrary: s) (auto simp: kill_actions_def kill_job_def Let_def)

lemma run_submit_action:
  "run (submit_actions p c n sub i) s =
     Inr (s\<lparr>submitted_jobs := add_job sub (submitted_jobs s) i,
            events := events s @ submit_events p c n sub i\<rparr>)"
  by (simp add: submit_actions_def submit_events_def add_job_def submissions_append Let_def)

lemma run_submit_actions:
  "run (concat (map (submit_actions p c n sub) is)) s =
     Inr (s\<lparr>submitted_jobs := foldl (add_job sub) (submitted_jobs s) is,
            events := events s @ concat (map (submit_events p c n sub) is)\<rparr>)"
proof (induction "is" arbitrary: s)
  case Nil
  show ?case by simp
next
  case (Cons i "is")
  show ?case
    by (simp add: run_append run_submit_action Cons.IH)
qed

lemma run_actions:
  assumes "distinct (submitted_jobs s)"
  shows "run (actions w s) s = poll w s"
proof -
  let ?f = "find_id w"
  let ?c = "filter (is_completed ?f) (submitted_jobs s)"
  let ?m = "filter (is_missing ?f) (submitted_jobs s)"
  let ?s1 = "s\<lparr>events := events s @ concat (map (unknown_state_log ?f) (submitted_jobs s))\<rparr>"
  let ?s2 = "s\<lparr>submitted_jobs :=
                 filter (\<lambda>j. \<not> is_completed ?f j \<and> \<not> is_missing ?f j) (submitted_jobs s),
               events := events s @ concat (map (unknown_state_log ?f) (submitted_jobs s))
                 @ map (\<lambda>j. SlurmKill j (slurm_kill_job w j)) (?c @ ?m)\<rparr>"
  have a1: "run (map Emit (concat (map (unknown_state_log ?f) (submitted_jobs s)))) s = Inr ?s1"
    by (rule run_emits)
  have a2: "run (concat (map (kill_actions (slurm_kill_job w)) (?c @ ?m))) ?s1 = Inr ?s2"
    unfolding run_kill_actions by (rule cleanup_eq [OF assms])
  show ?thesis
    unfolding actions_def Let_def run_append a1 sum.case a2 run_emits run_submit_actions
      poll_result [OF assms]
    by (simp add: cleanup_events_def del: map_append)
qed

lemma submissions_mem: "r \<in> set (submissions es) \<Longrightarrow> SlurmSubmit r \<in> set es"
  by (induction es rule: submissions.induct) auto

lemma tracked_do_action:
  assumes "tracked s" and "do_action a s = Inr t"
  shows "tracked t"
proof (cases a)
  case (Emit e)
  then show ?thesis
    using assms by (auto simp: tracked_def)
next
  case (Remove j)
  then show ?thesis
    using assms by (auto simp: tracked_def distinct_removeAll split: if_splits)
next
  case AddReturned
  show ?thesis
  proof (cases "submissions (events s) \<noteq> [] \<and> 0 < last (submissions (events s))")
    case True
    then have "SlurmSubmit (last (submissions (events s))) \<in> set (events s)"
      by (intro submissions_mem) simp
    then show ?thesis
      using assms True AddReturned by (auto simp: tracked_def Let_def)
  next
    case False
    then have "t = s"
      using assms(2) AddReturned by (auto simp: Let_def split: if_splits)
    then show ?thesis
      using assms(1) by simp
  qed
qed

lemma tracked_run: "tracked s \<Longrightarrow> run xs s = Inr t \<Longrightarrow> tracked t"
proof (induction xs arbitrary: s)
  case Nil
  then show ?case by simp
next
  case (Cons a xs)
  then show ?case
    by (auto split: sum.splits dest: tracked_do_action)
qed

lemma distinct_do_action:
  "distinct (submitted_jobs s) \<Longrightarrow> do_action a s = Inr t \<Longrightarrow> distinct (submitted_jobs t)"
  by (cases a) (auto simp: distinct_removeAll Let_def split: if_splits)

lemma distinct_run:
  "distinct (submitted_jobs s) \<Longrightarrow> run xs s = Inr t \<Longrightarrow> distinct (submitted_jobs t)"
proof (induction xs arbitrary: s)
  case Nil
  then show ?case by simp
next
  case (Cons a xs)
  then show ?case
    by (auto split: sum.splits dest: distinct_do_action)
qed

lemma run_take:
  assumes "run xs s = Inr t"
  shows "\<exists>u. run (take n xs) s = Inr u"
proof -
  have "run (take n xs @ drop n xs) s = Inr t"
    using assms by simp
  then show ?thesis
    unfolding run_append by (cases "run (take n xs) s") auto
qed

lemma run_prefix_distinct:
  assumes "distinct (submitted_jobs s)"
  shows "\<exists>u. run (take n (actions w s)) s = Inr u \<and> distinct (submitted_jobs u)"
proof -
  obtain t where "poll w s = Inr t"
    using poll_result [OF assms, of w] by blast
  then have "run (actions w s) s = Inr t"
    by (simp add: run_actions [OF assms])
  then obtain u where u: "run (take n (actions w s)) s = Inr u"
    using run_take by blast
  with assms show ?thesis
    by (blast dest: distinct_run)
qed

lemma tracked_infinite_poll:
  "tracked s \<Longrightarrow> infinite_poll ts s = Some (Inr s') \<Longrightarrow> tracked s'"
proof (induction ts s rule: infinite_poll.induct)
  case (1 s)
  then show ?case by simp
next
  case (2 w ts s)
  then show ?case
    by (auto split: sum.splits dest: tracked_poll)
next
  case (3 k ts s)
  then show ?case
    by (auto dest: tracked_on_interrupt)
next
  case (4 w n k ts s)
  then show ?case
    by (auto split: sum.splits dest: tracked_run tracked_on_interrupt)
qed

lemma reachable_tracked: "reachable s \<Longrightarrow> tracked s"
proof (induction rule: reachable.induct)
  case (start p pd n q v pgid)
  show ?case by (rule tracked_init)
next
  case (submitted s reply)
  then show ?case by (simp add: tracked_submit_job)
next
  case (killed s k j b s')
  then show ?case by (blast intro: tracked_kill_job)
next
  case (logged s l)
  then show ?case by (simp add: tracked_log_line)
next
  case (queried s f)
  then show ?case by (simp add: tracked_query)
next
  case (polled s w s')
  then show ?case by (blast intro: tracked_poll)
next
  case (interrupted s k s')
  then show ?case by (blast intro: tracked_on_interrupt)
next
  case (looped s ts s')
  then show ?case by (blast intro: tracked_infinite_poll)
next
  case (midcycle s n w s')
  then show ?case by (blast intro: tracked_run)
qed

lemma poll_distinct:
  assumes "distinct (submitted_jobs s)"
  shows "\<exists>s'. poll w s = Inr s' \<and> distinct (submitted_jobs s')"
proof -
  obtain s' where p: "poll w s = Inr s'"
    and reg: "submitted_jobs s' =
                foldl (add_job (slurm_submit w))
                  (filter (\<lambda>j. \<not> is_completed (find_id w) j \<and> \<not> is_missing (find_id w) j)
                     (submitted_jobs s))
                  [0..<nat (planned w s)]"
    using poll_summary [OF assms, of w] by blast
  have "distinct (submitted_jobs s')"
    unfolding reg using assms by (intro distinct_add_jobs) simp
  with p show ?thesis
    by blast
qed

lemma cycles_distinct:
  "distinct (submitted_jobs s) \<Longrightarrow> \<exists>t. cycles ws s = Inr t \<and> distinct (submitted_jobs t)"
proof (induction ws arbitrary: s)
  case Nil
  then show ?case by simp
next
  case (Cons w ws)
  obtain s' where p: "poll w s = Inr s'" and d: "distinct (submitted_jobs s')"
    using poll_distinct [OF Cons.prems] by blast
  show ?case
    using Cons.IH [OF d] by (simp add: p)
qed

lemma infinite_poll_cycles:
  "infinite_poll (map Cycle ws @ ts) s =
     (case cycles ws s of Inl e \<Rightarrow> Some (Inl e) | Inr t \<Rightarrow> infinite_poll ts t)"
  by (induction ws arbitrary: s) (auto split: sum.splits)

section \<open>The runs, evaluated\<close>

lemma example_manager_eq:
  "example_manager =
     \<lparr>profile = None, profile_dir = None, n_wanted = 5, max_n_queued = 4, verbose = 0,
      pid = 4242, submitted_jobs = [4, 3, 2, 1],
      events = [WriteJobDescription 4242 JOB_COMMAND, SlurmSubmit 1,
                WriteJobDescription 4242 JOB_COMMAND, SlurmSubmit 2,
                WriteJobDescription 4242 JOB_COMMAND, SlurmSubmit 3,
                WriteJobDescription 4242 JOB_COMMAND, SlurmSubmit 4]\<rparr>"
  by (simp add: example_manager_def submit_job_def init_def)

lemma example_info:
  "get_submitted_job_info (find_id example_world) example_manager
     = (([1], [2], [3], [4]), example_manager)"
  by (simp add: example_manager_eq example_world_def get_submitted_job_info_def
        job_info_step_def)

lemma upt_3: "[0..<3] = [0, 1, 2]"
  by code_simp

lemma failed_manager_eq:
  "failed_manager =
     \<lparr>profile = None, profile_dir = None, n_wanted = 1, max_n_queued = 1, verbose = 0,
      pid = 4242, submitted_jobs = [7],
      events = [WriteJobDescription 4242 JOB_COMMAND, SlurmSubmit 7]\<rparr>"
  by (simp add: failed_manager_def submit_job_def init_def)

lemma failed_info:
  "get_submitted_job_info (find_id failed_world) failed_manager
     = (([], [], [], []),
        failed_manager\<lparr>events := events failed_manager @ [Log (UnknownJobState ''FAILED'' 7)]\<rparr>)"
  by (simp add: failed_manager_eq failed_world_def get_submitted_job_info_def
        job_info_step_def)

lemma example_facts:
  "nat (min (n_wanted example_manager - (int (length [1::int]) + int (length [2::int])))
            (max_n_queued example_manager - int (length [2::int]))) = 3"
  "filter (\<lambda>j. j \<notin> set ([3] @ [4])) (submitted_jobs example_manager) = [2, 1]"
  "submissions (events example_manager) = [1, 2, 3, 4]"
  "map (slurm_submit example_world) [0, 1, 2] = [10, - 1, 12]"
  "filter (\<lambda>i. 0 < slurm_submit example_world i) [0, 1, 2] = [0, 2]"
  "map (slurm_submit example_world) [0, 2] = [10, 12]"
  by (simp_all add: example_manager_eq example_world_def)

lemma example_replies:
  "{slurm_submit example_world i |i. i < 3 \<and> 0 < slurm_submit example_world i} = {10, 12}"
proof -
  have "{i::nat. i < 3} = {0, 1, 2}"
    by auto
  then have "{slurm_submit example_world i |i. i < 3 \<and> 0 < slurm_submit example_world i}
          = slurm_submit example_world ` {i \<in> {0, 1, 2}. 0 < slurm_submit example_world i}"
    by auto
  also have "\<dots> = {10, 12}"
    by (auto simp: example_world_def)
  finally show ?thesis .
qed

lemma example_fresh:
  "\<forall>i<3. 0 < slurm_submit example_world i \<longrightarrow> slurm_submit example_world i \<notin> set [2, 1]"
  by (auto simp: example_world_def)

lemma failed_poll:
  "poll failed_world failed_manager =
     Inr (failed_manager
            \<lparr>submitted_jobs := [100, 7],
             events := events failed_manager
               @ [Log (UnknownJobState ''FAILED'' 7), Log (StatusSubmit 0 0 1 1),
                  WriteJobDescription 4242 JOB_COMMAND, SlurmSubmit 100,
                  Log (Submitted 1 1 100)]\<rparr>)"
proof -
  have d: "distinct (submitted_jobs failed_manager)"
    by (simp add: failed_manager_eq)
  have n: "n_running failed_world failed_manager = 0" "n_queued failed_world failed_manager = 0"
    by (simp_all add: n_running_def n_queued_def is_running_def is_queued_def
          failed_manager_eq failed_world_def)
  have cfg: "n_wanted failed_manager = 1" "max_n_queued failed_manager = 1"
    "verbose failed_manager = 0" "pid failed_manager = 4242"
    by (simp_all add: failed_manager_eq)
  have t: "top_up failed_world failed_manager"
    by (simp add: top_up_def n cfg)
  have pl: "planned failed_world failed_manager = 1"
    by (simp add: planned_def t n cfg)
  have c: "cleanup_events failed_world (submitted_jobs failed_manager)
             = [Log (UnknownJobState ''FAILED'' 7)]"
    by (simp add: cleanup_events_def unknown_state_log_def is_completed_def is_missing_def
          failed_manager_eq failed_world_def)
  have st: "status_events failed_world failed_manager = [Log (StatusSubmit 0 0 1 1)]"
    by (simp add: status_events_def t n pl cfg)
  have kept: "filter (\<lambda>j. \<not> is_completed (find_id failed_world) j
                          \<and> \<not> is_missing (find_id failed_world) j)
                (submitted_jobs failed_manager) = [7]"
    by (simp add: is_completed_def is_missing_def failed_manager_eq failed_world_def)
  have cmd: "job_command failed_manager = JOB_COMMAND"
    by (simp add: job_command_def failed_manager_eq)
  have sub: "slurm_submit failed_world 0 = 100"
    by (simp add: failed_world_def)
  have tl: "concat (map (submit_events (pid failed_manager) JOB_COMMAND 1
                           (slurm_submit failed_world)) [0..<nat 1])
              = [WriteJobDescription 4242 JOB_COMMAND, SlurmSubmit 100, Log (Submitted 1 1 100)]"
    by (simp add: submit_events_def sub cfg)
  have ad: "foldl (add_job (slurm_submit failed_world)) [7] [0..<nat 1] = [100, 7]"
    by (simp add: add_job_def sub)
  show ?thesis
    unfolding poll_result [OF d] pl c st kept cmd tl ad
    by simp
qed

lemma swallowed_poll:
  "poll (observed swallowing_scheduler) example_manager =
     Inr (example_manager
            \<lparr>submitted_jobs := [12, 11, 2, 1],
             events := events example_manager
               @ [SlurmKill 3 False, SlurmKill 4 True,
                  Log (CompletedJobs [3]), Log (MissingJobs [4]),
                  Log (StatusSubmit 1 1 5 3),
                  WriteJobDescription 4242 JOB_COMMAND, SlurmSubmit (- 1),
                  Log (SubmissionFailed 1 3),
                  WriteJobDescription 4242 JOB_COMMAND, SlurmSubmit 11,
                  Log (Submitted 2 3 11),
                  WriteJobDescription 4242 JOB_COMMAND, SlurmSubmit 12,
                  Log (Submitted 3 3 12)]\<rparr>)"
proof -
  let ?w = "observed swallowing_scheduler"
  have d: "distinct (submitted_jobs example_manager)"
    by (simp add: example_manager_eq)
  have f: "find_id ?w = find_id example_world"
    by (simp add: observed_def swallowing_scheduler_def)
  have kl: "slurm_kill_job ?w 3 = False" "slurm_kill_job ?w 4 = True"
    by (simp_all add: observed_def swallowing_scheduler_def try_kill_def)
  have sub: "slurm_submit ?w 0 = - 1" "slurm_submit ?w 1 = 11"
            "slurm_submit ?w (Suc 0) = 11" "slurm_submit ?w 2 = 12"
    by (simp_all add: observed_def swallowing_scheduler_def try_submit_def)
  have n: "n_running ?w example_manager = 1" "n_queued ?w example_manager = 1"
    by (simp_all add: n_running_def n_queued_def f is_running_def is_queued_def
          example_manager_eq example_world_def)
  have cfg: "n_wanted example_manager = 5" "max_n_queued example_manager = 4"
    "verbose example_manager = 0" "pid example_manager = 4242"
    by (simp_all add: example_manager_eq)
  have t: "top_up ?w example_manager"
    by (simp add: top_up_def n cfg)
  have pl: "planned ?w example_manager = 3"
    by (simp add: planned_def t n cfg)
  have cm: "filter (is_completed (find_id example_world)) (submitted_jobs example_manager) = [3]"
           "filter (is_missing (find_id example_world)) (submitted_jobs example_manager) = [4]"
           "concat (map (unknown_state_log (find_id example_world))
                      (submitted_jobs example_manager)) = []"
    by (simp_all add: unknown_state_log_def is_completed_def is_missing_def
          example_manager_eq example_world_def)
  have c: "cleanup_events ?w (submitted_jobs example_manager)
             = [SlurmKill 3 False, SlurmKill 4 True,
                Log (CompletedJobs [3]), Log (MissingJobs [4])]"
    unfolding cleanup_events_def f cm by (simp add: kl)
  have st: "status_events ?w example_manager = [Log (StatusSubmit 1 1 5 3)]"
    by (simp add: status_events_def t n pl cfg)
  have kept: "filter (\<lambda>j. \<not> is_completed (find_id ?w) j \<and> \<not> is_missing (find_id ?w) j)
                (submitted_jobs example_manager) = [2, 1]"
    unfolding f
    by (simp add: is_completed_def is_missing_def example_manager_eq example_world_def)
  have cmd: "job_command example_manager = JOB_COMMAND"
    by (simp add: job_command_def example_manager_eq)
  have u: "[0..<nat 3] = [0, 1, 2]"
    by (simp add: upt_3)
  have tl: "concat (map (submit_events (pid example_manager) JOB_COMMAND 3 (slurm_submit ?w))
                      [0, 1, 2])
              = [WriteJobDescription 4242 JOB_COMMAND, SlurmSubmit (- 1),
                 Log (SubmissionFailed 1 3),
                 WriteJobDescription 4242 JOB_COMMAND, SlurmSubmit 11, Log (Submitted 2 3 11),
                 WriteJobDescription 4242 JOB_COMMAND, SlurmSubmit 12, Log (Submitted 3 3 12)]"
    by (simp add: submit_events_def sub cfg)
  have ad: "foldl (add_job (slurm_submit ?w)) [2, 1] [0, 1, 2] = [12, 11, 2, 1]"
    by (simp add: add_job_def sub)
  show ?thesis
    unfolding poll_result [OF d] pl c st kept cmd u tl ad
    by simp
qed

section \<open>Properties\<close>

text \<open>
  The statements about a cycle are for a registry without duplicates. A Python set has
  none, and the list that stands for it has none in any state the manager can be in
  (lemma \<open>reachable_tracked\<close>). The results of \<^verbatim>\<open>get_submitted_job_info\<close> are named by an
  equation among the assumptions.
\<close>

subsection \<open>Number of submissions of a cycle\<close>

text \<open>
  C1. When \<open>running + queued < n_wanted\<close> and \<open>queued < max_n_queued\<close>, a cycle calls
  \<^verbatim>\<open>slurm_submit\<close> exactly \<open>n_submit = min (n_wanted - (running + queued))
  (max_n_queued - queued)\<close> times, and \<open>1 \<le> n_submit \<le> max_n_queued - queued\<close>; otherwise
  it calls it not at all. \<open>running\<close> and \<open>queued\<close> are the lengths of the first two lists
  of \<^verbatim>\<open>get_submitted_job_info\<close>.
\<close>

theorem poll_submission_count:
  assumes "distinct (submitted_jobs s)"
    and "get_submitted_job_info (find_id w) s
           = ((running_ids, queued_ids, completed_ids, missing_ids), s1)"
    and "running = int (length running_ids)"
    and "queued = int (length queued_ids)"
    and "n_submit = min (n_wanted s - (running + queued)) (max_n_queued s - queued)"
  shows "\<exists>s'. poll w s = Inr s' \<and>
           (if running + queued < n_wanted s \<and> queued < max_n_queued s
            then submissions (events s')
                   = submissions (events s) @ map (slurm_submit w) [0..<nat n_submit]
                 \<and> length (submissions (events s'))
                   = length (submissions (events s)) + nat n_submit
                 \<and> 1 \<le> n_submit \<and> n_submit \<le> max_n_queued s - queued
            else submissions (events s') = submissions (events s))"
proof -
  have r: "running = n_running w s" and q: "queued = n_queued w s"
    using assms(3,4) job_lists_eq(1,2) [OF assms(2)]
    by (simp_all add: n_running_def n_queued_def)
  have g: "(running + queued < n_wanted s \<and> queued < max_n_queued s) = top_up w s"
    by (simp add: r q top_up_def)
  have sub: "submissions (events s @ cleanup_events w (submitted_jobs s) @ status_events w s
               @ concat (map (submit_events (pid s) (job_command s) (planned w s) (slurm_submit w))
                           [0..<nat (planned w s)]))
             = submissions (events s) @ map (slurm_submit w) [0..<nat (planned w s)]"
    by (simp only: submissions_append submissions_cleanup_events submissions_status_events
          submissions_submit_events append_Nil)
  obtain s' where p: "poll w s = Inr s'"
    and ev: "events s' = events s @ cleanup_events w (submitted_jobs s) @ status_events w s
               @ concat (map (submit_events (pid s) (job_command s) (planned w s) (slurm_submit w))
                           [0..<nat (planned w s)])"
    using poll_result [OF assms(1), of w] by simp
  have subs: "submissions (events s')
                = submissions (events s) @ map (slurm_submit w) [0..<nat (planned w s)]"
    by (simp only: ev sub)
  show ?thesis
  proof (cases "top_up w s")
    case True
    then have guard: "running + queued < n_wanted s \<and> queued < max_n_queued s"
      using g by simp
    have n: "planned w s = n_submit"
      using True by (simp add: planned_def assms(5) r q)
    have bounds: "1 \<le> n_submit" "n_submit \<le> max_n_queued s - queued"
      using planned_bounds [OF True] by (simp_all add: n q)
    have "submissions (events s')
            = submissions (events s) @ map (slurm_submit w) [0..<nat n_submit]"
      using subs by (simp only: n)
    then show ?thesis
      using p guard bounds by simp
  next
    case False
    then have guard: "\<not> (running + queued < n_wanted s \<and> queued < max_n_queued s)"
      using g by simp
    have "planned w s = 0"
      using False by (simp add: planned_def)
    then have "submissions (events s') = submissions (events s)"
      using subs by simp
    then show ?thesis
      using p guard by auto
  qed
qed

theorem poll_submission_count_witness:
  "distinct (submitted_jobs example_manager)
   \<and> get_submitted_job_info (find_id example_world) example_manager
       = (([1], [2], [3], [4]), example_manager)
   \<and> (\<exists>s'. poll example_world example_manager = Inr s'
          \<and> submissions (events s') = [1, 2, 3, 4, 10, - 1, 12])"
proof -
  have d: "distinct (submitted_jobs example_manager)"
    by (simp add: example_manager_eq)
  have "\<exists>s'. poll example_world example_manager = Inr s'
          \<and> submissions (events s') = [1, 2, 3, 4, 10, - 1, 12]"
    using poll_submission_count [OF d example_info refl refl refl]
    by (simp add: example_manager_eq example_world_def upt_3) blast
  with d example_info show ?thesis
    by simp
qed

subsection \<open>Jobs the scheduler does not know\<close>

text \<open>
  C2, as the code has it. In every cycle, a tracked job of which the scheduler has no
  record is killed in that cycle, and it is not in the registry at the end of the cycle
  unless the scheduler returns the same identifier for a submission of that cycle. A
  tracked job whose state is a token that \<^verbatim>\<open>JobState\<close> does not list is not killed in the
  cycle and is still in the registry at its end.
\<close>

theorem missing_jobs_cleaned:
  assumes "distinct (submitted_jobs s)" and "j \<in> set (submitted_jobs s)"
  shows "\<exists>s' new. poll w s = Inr s' \<and> events s' = events s @ new
           \<and> (find_id w j = None \<longrightarrow>
                 j \<in> set (kills new)
                 \<and> ((\<forall>i. slurm_submit w i \<noteq> j) \<longrightarrow> j \<notin> set (submitted_jobs s')))
           \<and> (\<forall>tok. find_id w j = Some tok
                  \<and> tok \<notin> set [RUNNING, SUSPENDED, PENDING, COMPLETED, TIMEOUT, COMPLETING]
                \<longrightarrow> j \<notin> set (kills new) \<and> j \<in> set (submitted_jobs s'))"
proof -
  let ?f = "find_id w"
  let ?new = "cleanup_events w (submitted_jobs s) @ top_up_events w s"
  obtain s' where p: "poll w s = Inr s'"
    and ev: "events s' = events s @ ?new"
    and reg: "submitted_jobs s' =
                foldl (add_job (slurm_submit w))
                  (filter (\<lambda>j. \<not> is_completed ?f j \<and> \<not> is_missing ?f j) (submitted_jobs s))
                  [0..<nat (planned w s)]"
    using poll_summary [OF assms(1), of w] by blast
  have k: "set (kills ?new) = {x \<in> set (submitted_jobs s). is_completed ?f x \<or> is_missing ?f x}"
    by (auto simp add: kills_append kills_cleanup_events kills_top_up_events)
  have r: "set (submitted_jobs s') =
             {x \<in> set (submitted_jobs s). \<not> is_completed ?f x \<and> \<not> is_missing ?f x}
             \<union> {slurm_submit w i |i. i \<in> set [0..<nat (planned w s)] \<and> 0 < slurm_submit w i}"
    unfolding reg set_add_jobs by auto
  have m: "find_id w j = None \<longrightarrow>
             j \<in> set (kills ?new)
             \<and> ((\<forall>i. slurm_submit w i \<noteq> j) \<longrightarrow> j \<notin> set (submitted_jobs s'))"
    unfolding k r using assms(2) by (auto simp: is_missing_def)
  have u: "\<forall>tok. find_id w j = Some tok
             \<and> tok \<notin> set [RUNNING, SUSPENDED, PENDING, COMPLETED, TIMEOUT, COMPLETING]
           \<longrightarrow> j \<notin> set (kills ?new) \<and> j \<in> set (submitted_jobs s')"
  proof (intro allI impI, elim conjE)
    fix tok
    assume "find_id w j = Some tok"
      and "tok \<notin> set [RUNNING, SUSPENDED, PENDING, COMPLETED, TIMEOUT, COMPLETING]"
    then have "\<not> is_completed ?f j" and "\<not> is_missing ?f j"
      by (rule unknown_not_killed)+
    then show "j \<notin> set (kills ?new) \<and> j \<in> set (submitted_jobs s')"
      unfolding k r using assms(2) by simp
  qed
  show ?thesis
    by (rule exI [of _ s'], rule exI [of _ ?new]) (intro conjI p ev m u)
qed

theorem missing_jobs_cleaned_witness:
  "distinct (submitted_jobs example_manager) \<and> 4 \<in> set (submitted_jobs example_manager)
   \<and> find_id example_world 4 = None \<and> (\<forall>i. slurm_submit example_world i \<noteq> 4)
   \<and> (\<exists>s' new. poll example_world example_manager = Inr s'
          \<and> events s' = events example_manager @ new
          \<and> 4 \<in> set (kills new) \<and> 4 \<notin> set (submitted_jobs s'))
   \<and> distinct (submitted_jobs failed_manager) \<and> 7 \<in> set (submitted_jobs failed_manager)
   \<and> find_id failed_world 7 = Some ''FAILED''
   \<and> ''FAILED'' \<notin> set [RUNNING, SUSPENDED, PENDING, COMPLETED, TIMEOUT, COMPLETING]
   \<and> (\<exists>s' new. poll failed_world failed_manager = Inr s'
          \<and> events s' = events failed_manager @ new
          \<and> 7 \<notin> set (kills new) \<and> 7 \<in> set (submitted_jobs s'))"
proof -
  have d4: "distinct (submitted_jobs example_manager)"
    and j4: "4 \<in> set (submitted_jobs example_manager)"
    by (simp_all add: example_manager_eq)
  have f4: "find_id example_world 4 = None"
    and n4: "\<forall>i. slurm_submit example_world i \<noteq> 4"
    by (simp_all add: example_world_def)
  have a: "\<exists>s' new. poll example_world example_manager = Inr s'
          \<and> events s' = events example_manager @ new
          \<and> 4 \<in> set (kills new) \<and> 4 \<notin> set (submitted_jobs s')"
    using missing_jobs_cleaned [OF d4 j4, of example_world] f4 n4 by blast
  have d7: "distinct (submitted_jobs failed_manager)"
    and j7: "7 \<in> set (submitted_jobs failed_manager)"
    by (simp_all add: failed_manager_eq)
  have f7: "find_id failed_world 7 = Some ''FAILED''"
    by (simp add: failed_world_def)
  have o7: "''FAILED'' \<notin> set [RUNNING, SUSPENDED, PENDING, COMPLETED, TIMEOUT, COMPLETING]"
    by simp
  have b: "\<exists>s' new. poll failed_world failed_manager = Inr s'
          \<and> events s' = events failed_manager @ new
          \<and> 7 \<notin> set (kills new) \<and> 7 \<in> set (submitted_jobs s')"
    using missing_jobs_cleaned [OF d7 j7, of failed_world] f7 o7 by blast
  from d4 j4 f4 n4 a d7 j7 f7 o7 b show ?thesis
    by blast
qed

text \<open>
  In the second run, job 7 has the unlisted state \<^verbatim>\<open>FAILED\<close>: the cycle issues no kill,
  and job 7 is in the registry at its end.
\<close>

theorem unknown_state_counterexample:
  "submitted_jobs failed_manager = [7]
   \<and> find_id failed_world 7 = Some ''FAILED''
   \<and> poll failed_world failed_manager =
       Inr (failed_manager
              \<lparr>submitted_jobs := [100, 7],
               events := events failed_manager
                 @ [Log (UnknownJobState ''FAILED'' 7), Log (StatusSubmit 0 0 1 1),
                    WriteJobDescription 4242 JOB_COMMAND, SlurmSubmit 100,
                    Log (Submitted 1 1 100)]\<rparr>)"
proof -
  have "submitted_jobs failed_manager = [7]"
    by (simp add: failed_manager_eq)
  moreover have "find_id failed_world 7 = Some ''FAILED''"
    by (simp add: failed_world_def)
  ultimately show ?thesis
    using failed_poll by simp
qed

subsection \<open>Killing a job\<close>




subsection \<open>Classification of the tracked jobs\<close>

text \<open>
  C4, as the code has it. \<^verbatim>\<open>get_submitted_job_info\<close> always returns; a tracked job is in
  the missing list exactly when the scheduler has no record of it, in the running list
  exactly when its state is \<^verbatim>\<open>RUNNING\<close> or \<^verbatim>\<open>SUSPENDED\<close>, in the queued list exactly when
  it is \<^verbatim>\<open>PENDING\<close>, in the completed list exactly when it is \<^verbatim>\<open>COMPLETED\<close>, \<^verbatim>\<open>TIMEOUT\<close>
  or \<^verbatim>\<open>COMPLETING\<close>; it is never in two lists; and a job with any other state is in none
  of the four lists: the anomaly is logged and nothing else happens.
\<close>

theorem classification_buckets:
  assumes "get_submitted_job_info f s
             = ((running_ids, queued_ids, completed_ids, missing_ids), s1)"
    and "j \<in> set (submitted_jobs s)"
  shows "(j \<in> set missing_ids \<longleftrightarrow> f j = None)
         \<and> (j \<in> set running_ids \<longleftrightarrow> f j = Some RUNNING \<or> f j = Some SUSPENDED)
         \<and> (j \<in> set queued_ids \<longleftrightarrow> f j = Some PENDING)
         \<and> (j \<in> set completed_ids \<longleftrightarrow>
                f j = Some COMPLETED \<or> f j = Some TIMEOUT \<or> f j = Some COMPLETING)
         \<and> \<not> (j \<in> set running_ids \<and> j \<in> set queued_ids)
         \<and> \<not> (j \<in> set running_ids \<and> j \<in> set completed_ids)
         \<and> \<not> (j \<in> set running_ids \<and> j \<in> set missing_ids)
         \<and> \<not> (j \<in> set queued_ids \<and> j \<in> set completed_ids)
         \<and> \<not> (j \<in> set queued_ids \<and> j \<in> set missing_ids)
         \<and> \<not> (j \<in> set completed_ids \<and> j \<in> set missing_ids)
         \<and> (\<forall>tok. f j = Some tok
                \<and> tok \<notin> set [RUNNING, SUSPENDED, PENDING, COMPLETED, TIMEOUT, COMPLETING]
              \<longrightarrow> j \<notin> set running_ids \<union> set queued_ids \<union> set completed_ids \<union> set missing_ids
                  \<and> Log (UnknownJobState tok j) \<in> set (events s1))"
proof -
  note eqs = job_lists_eq [OF assms(1)]
  have m: "j \<in> set missing_ids \<longleftrightarrow> f j = None"
    using assms(2) by (simp add: eqs(4) is_missing_def)
  have r: "j \<in> set running_ids \<longleftrightarrow> f j = Some RUNNING \<or> f j = Some SUSPENDED"
    using assms(2) by (simp add: eqs(1) is_running_def)
  have q: "j \<in> set queued_ids \<longleftrightarrow> f j = Some PENDING"
    using assms(2) by (simp add: eqs(2) is_queued_def)
  have c: "j \<in> set completed_ids \<longleftrightarrow>
             f j = Some COMPLETED \<or> f j = Some TIMEOUT \<or> f j = Some COMPLETING"
    using assms(2) by (auto simp add: eqs(3) is_completed_def)
  have x: "\<not> (j \<in> set running_ids \<and> j \<in> set queued_ids)"
          "\<not> (j \<in> set running_ids \<and> j \<in> set completed_ids)"
          "\<not> (j \<in> set running_ids \<and> j \<in> set missing_ids)"
          "\<not> (j \<in> set queued_ids \<and> j \<in> set completed_ids)"
          "\<not> (j \<in> set queued_ids \<and> j \<in> set missing_ids)"
          "\<not> (j \<in> set completed_ids \<and> j \<in> set missing_ids)"
    unfolding m r q c by auto
  have u: "\<forall>tok. f j = Some tok
             \<and> tok \<notin> set [RUNNING, SUSPENDED, PENDING, COMPLETED, TIMEOUT, COMPLETING]
           \<longrightarrow> j \<notin> set running_ids \<union> set queued_ids \<union> set completed_ids \<union> set missing_ids
               \<and> Log (UnknownJobState tok j) \<in> set (events s1)"
  proof (intro allI impI, elim conjE)
    fix tok
    assume tok: "f j = Some tok"
      and other: "tok \<notin> set [RUNNING, SUSPENDED, PENDING, COMPLETED, TIMEOUT, COMPLETING]"
    have none: "j \<notin> set running_ids \<union> set queued_ids \<union> set completed_ids \<union> set missing_ids"
      using tok other unfolding Un_iff m r q c by auto
    have "unknown_state_log f j = [Log (UnknownJobState tok j)]"
      using tok other by (simp add: unknown_state_log_def)
    then have "Log (UnknownJobState tok j)
                 \<in> set (concat (map (unknown_state_log f) (submitted_jobs s)))"
      using assms(2) by force
    then have "Log (UnknownJobState tok j) \<in> set (events s1)"
      by (simp add: eqs(5))
    with none
    show "j \<notin> set running_ids \<union> set queued_ids \<union> set completed_ids \<union> set missing_ids
          \<and> Log (UnknownJobState tok j) \<in> set (events s1)"
      by simp
  qed
  from m r q c x u show ?thesis
    by blast
qed

theorem classification_buckets_witness:
  "get_submitted_job_info (find_id failed_world) failed_manager
     = (([], [], [], []),
        failed_manager\<lparr>events := events failed_manager @ [Log (UnknownJobState ''FAILED'' 7)]\<rparr>)
   \<and> 7 \<in> set (submitted_jobs failed_manager)
   \<and> find_id failed_world 7 = Some ''FAILED''
   \<and> ''FAILED'' \<notin> set [RUNNING, SUSPENDED, PENDING, COMPLETED, TIMEOUT, COMPLETING]
   \<and> Log (UnknownJobState ''FAILED'' 7)
       \<in> set (events (failed_manager\<lparr>events := events failed_manager
                                          @ [Log (UnknownJobState ''FAILED'' 7)]\<rparr>))
   \<and> get_submitted_job_info (find_id example_world) example_manager
       = (([1], [2], [3], [4]), example_manager)
   \<and> 3 \<in> set (submitted_jobs example_manager)
   \<and> find_id example_world 3 = Some COMPLETED
   \<and> 3 \<in> set [3::int] \<and> 3 \<notin> set [4::int]"
proof -
  have j7: "7 \<in> set (submitted_jobs failed_manager)"
    by (simp add: failed_manager_eq)
  have f7: "find_id failed_world 7 = Some ''FAILED''"
    by (simp add: failed_world_def)
  have other: "''FAILED'' \<notin> set [RUNNING, SUSPENDED, PENDING, COMPLETED, TIMEOUT, COMPLETING]"
    by simp
  have logged: "Log (UnknownJobState ''FAILED'' 7)
       \<in> set (events (failed_manager\<lparr>events := events failed_manager
                                          @ [Log (UnknownJobState ''FAILED'' 7)]\<rparr>))"
    using classification_buckets [OF failed_info j7] f7 other by blast
  have j3: "3 \<in> set (submitted_jobs example_manager)"
    by (simp add: example_manager_eq)
  have f3: "find_id example_world 3 = Some COMPLETED"
    by (simp add: example_world_def)
  have in3: "3 \<in> set [3::int] \<and> 3 \<notin> set [4::int]"
    using classification_buckets [OF example_info j3] f3 by simp
  from failed_info j7 f7 other logged example_info j3 f3 in3 show ?thesis
    by blast
qed

text \<open>
  In the second run, job 7 is tracked and has the state \<^verbatim>\<open>FAILED\<close>: all four lists are
  empty, so job 7 is in none of them.
\<close>

theorem classification_counterexample:
  "submitted_jobs failed_manager = [7]
   \<and> find_id failed_world 7 = Some ''FAILED''
   \<and> fst (get_submitted_job_info (find_id failed_world) failed_manager) = ([], [], [], [])"
  by (simp add: failed_manager_eq failed_world_def get_submitted_job_info_def
        job_info_step_def)

subsection \<open>Where the members of the registry come from\<close>

text \<open>
  C5. In every state the manager can be in, every identifier in the registry is positive
  and was returned by an earlier call of \<^verbatim>\<open>slurm_submit\<close> of this manager, whose history
  starts empty: nothing but a successful submission puts an identifier in the registry.
\<close>

theorem registry_closure:
  assumes "reachable s"
  shows "\<forall>j \<in> set (submitted_jobs s). 0 < j \<and> SlurmSubmit j \<in> set (events s)"
  using reachable_tracked [OF assms] by (simp add: tracked_def)

theorem registry_closure_witness:
  "reachable example_manager
   \<and> 4 \<in> set (submitted_jobs example_manager)
   \<and> (0::int) < 4 \<and> SlurmSubmit 4 \<in> set (events example_manager)"
proof -
  have r: "reachable example_manager"
    unfolding example_manager_def by (intro reachable.submitted reachable.start)
  have j: "4 \<in> set (submitted_jobs example_manager)"
    by (simp add: example_manager_eq)
  from registry_closure [OF r] j r show ?thesis
    by auto
qed

subsection \<open>Failed submissions\<close>

text \<open>
  C6. A submission that fails (\<^verbatim>\<open>slurm_submit\<close> returns no positive identifier) returns
  that value and leaves the registry as it was. In a cycle that plans \<open>n_submit\<close>
  submissions, \<^verbatim>\<open>poll\<close> ends normally and has called \<^verbatim>\<open>slurm_submit\<close> exactly \<open>n_submit\<close>
  times, once per iteration, whatever the calls returned; the registry at the end holds
  the jobs the cleanup left and the positive identifiers returned, and nothing else.
  When the scheduler returns each positive identifier once and none that is still
  tracked, the registry has grown by the number of successful submissions.
\<close>

theorem failed_submissions_independent:
  assumes "distinct (submitted_jobs s)"
    and "get_submitted_job_info (find_id w) s
           = ((running_ids, queued_ids, completed_ids, missing_ids), s1)"
    and "running = int (length running_ids)"
    and "queued = int (length queued_ids)"
    and "running + queued < n_wanted s" and "queued < max_n_queued s"
    and "n_submit = min (n_wanted s - (running + queued)) (max_n_queued s - queued)"
    and "kept = filter (\<lambda>j. j \<notin> set (completed_ids @ missing_ids)) (submitted_jobs s)"
  shows "(\<forall>reply t. reply \<le> 0 \<longrightarrow>
            fst (submit_job reply t) = reply
            \<and> submitted_jobs (snd (submit_job reply t)) = submitted_jobs t)
         \<and> (\<exists>s'. poll w s = Inr s'
               \<and> submissions (events s')
                   = submissions (events s) @ map (slurm_submit w) [0..<nat n_submit]
               \<and> set (submitted_jobs s')
                   = set kept \<union> {slurm_submit w i |i. i < nat n_submit \<and> 0 < slurm_submit w i}
               \<and> (distinct (map (slurm_submit w)
                              (filter (\<lambda>i. 0 < slurm_submit w i) [0..<nat n_submit]))
                    \<and> (\<forall>i < nat n_submit. 0 < slurm_submit w i
                                              \<longrightarrow> slurm_submit w i \<notin> set kept)
                  \<longrightarrow> length (submitted_jobs s')
                        = length kept
                          + length (filter (\<lambda>i. 0 < slurm_submit w i) [0..<nat n_submit])))"
proof -
  have n: "planned w s = n_submit"
    unfolding planned_eq [OF assms(2)] using assms(3-7) by simp
  have kept: "filter (\<lambda>j. \<not> is_completed (find_id w) j \<and> \<not> is_missing (find_id w) j)
                (submitted_jobs s) = kept"
    unfolding assms(8) by (rule filter_not_killed_lists [OF assms(2)])
  obtain s' where p: "poll w s = Inr s'"
    and ev: "events s' = events s @ cleanup_events w (submitted_jobs s) @ top_up_events w s"
    and reg: "submitted_jobs s' = foldl (add_job (slurm_submit w)) kept [0..<nat n_submit]"
    using poll_summary [OF assms(1), of w] unfolding n kept by blast
  have a: "\<forall>reply t. reply \<le> 0 \<longrightarrow>
            fst (submit_job reply t) = reply
            \<and> submitted_jobs (snd (submit_job reply t)) = submitted_jobs t"
    by (simp add: submit_job_def Let_def)
  have b: "submissions (events s')
             = submissions (events s) @ map (slurm_submit w) [0..<nat n_submit]"
    by (simp only: ev submissions_append submissions_cleanup_events
          submissions_top_up_events n append_Nil)
  have c: "set (submitted_jobs s')
             = set kept \<union> {slurm_submit w i |i. i < nat n_submit \<and> 0 < slurm_submit w i}"
    unfolding reg set_add_jobs by auto
  have d: "distinct (map (slurm_submit w)
                       (filter (\<lambda>i. 0 < slurm_submit w i) [0..<nat n_submit]))
             \<and> (\<forall>i < nat n_submit. 0 < slurm_submit w i \<longrightarrow> slurm_submit w i \<notin> set kept)
           \<longrightarrow> length (submitted_jobs s')
                 = length kept
                   + length (filter (\<lambda>i. 0 < slurm_submit w i) [0..<nat n_submit])"
  proof
    assume h: "distinct (map (slurm_submit w)
                       (filter (\<lambda>i. 0 < slurm_submit w i) [0..<nat n_submit]))
             \<and> (\<forall>i < nat n_submit. 0 < slurm_submit w i \<longrightarrow> slurm_submit w i \<notin> set kept)"
    then have fresh: "\<forall>i \<in> set [0..<nat n_submit].
                        0 < slurm_submit w i \<longrightarrow> slurm_submit w i \<notin> set kept"
      by simp
    from h have dist: "distinct (map (slurm_submit w)
                       (filter (\<lambda>i. 0 < slurm_submit w i) [0..<nat n_submit]))"
      by simp
    show "length (submitted_jobs s')
            = length kept + length (filter (\<lambda>i. 0 < slurm_submit w i) [0..<nat n_submit])"
      unfolding reg by (rule length_add_jobs [OF dist fresh])
  qed
  from a p b c d show ?thesis
    by blast
qed

theorem failed_submissions_independent_witness:
  "distinct (submitted_jobs example_manager)
   \<and> get_submitted_job_info (find_id example_world) example_manager
       = (([1], [2], [3], [4]), example_manager)
   \<and> int (length [1::int]) + int (length [2::int]) < n_wanted example_manager
   \<and> int (length [2::int]) < max_n_queued example_manager
   \<and> slurm_submit example_world 1 \<le> 0
   \<and> distinct [10, 12::int]
   \<and> slurm_submit example_world 0 = 10 \<and> slurm_submit example_world 2 = 12
   \<and> 10 \<notin> set [2, 1::int] \<and> 12 \<notin> set [2, 1::int]
   \<and> (\<exists>s'. poll example_world example_manager = Inr s'
          \<and> submissions (events s') = [1, 2, 3, 4, 10, - 1, 12]
          \<and> set (submitted_jobs s') = {2, 1, 10, 12}
          \<and> length (submitted_jobs s') = 4)"
proof -
  have d: "distinct (submitted_jobs example_manager)"
    by (simp add: example_manager_eq)
  have g: "int (length [1::int]) + int (length [2::int]) < n_wanted example_manager"
          "int (length [2::int]) < max_n_queued example_manager"
    by (simp_all add: example_manager_eq)
  have f: "slurm_submit example_world 1 \<le> 0"
    by (simp add: example_world_def)
  have d2: "distinct [10, 12::int]"
    by simp
  note inst = failed_submissions_independent [OF d example_info refl refl g refl refl,
      unfolded example_facts upt_3 example_replies]
  then obtain s' where p: "poll example_world example_manager = Inr s'"
    and sb: "submissions (events s') = [1, 2, 3, 4] @ [10, - 1, 12]"
    and rg: "set (submitted_jobs s') = set [2, 1] \<union> {10, 12}"
    and ln: "distinct [10, 12::int]
             \<and> (\<forall>i<3. 0 < slurm_submit example_world i
                        \<longrightarrow> slurm_submit example_world i \<notin> set [2, 1])
             \<longrightarrow> length (submitted_jobs s') = length [2, 1::int] + length [0, 2::nat]"
    by blast
  from ln d2 example_fresh have "length (submitted_jobs s') = 4"
    by simp
  with p sb rg have "\<exists>s'. poll example_world example_manager = Inr s'
          \<and> submissions (events s') = [1, 2, 3, 4, 10, - 1, 12]
          \<and> set (submitted_jobs s') = {2, 1, 10, 12}
          \<and> length (submitted_jobs s') = 4"
    by auto
  moreover have "slurm_submit example_world 0 = 10" "slurm_submit example_world 2 = 12"
    by (simp_all add: example_world_def)
  moreover have "10 \<notin> set [2, 1::int]" "12 \<notin> set [2, 1::int]"
    by simp_all
  ultimately show ?thesis
    using d example_info g f d2 by blast
qed

subsection \<open>Cleanup before top-up\<close>

text \<open>
  C7. In a cycle the cleanup is over before the top-up is decided. The kills of the
  completed and the missing list end normally in a state whose registry is the registry
  of the start without exactly those jobs, so every job of the running and the queued
  list is still tracked; up to there the cycle has printed the anomalies of the query
  and called the scheduler once per killed job, and it has made no submission. After the
  two lines about completed and missing jobs, the rest of the cycle starts with the
  status line of the decision and holds the submissions and no kill; the registry at the
  end is the one the cleanup left plus what the submissions add. The number of
  submissions is computed from the lengths of the running and the queued list, taken by
  \<^verbatim>\<open>get_submitted_job_info\<close> before the cleanup, and no job of the completed or the missing
  list is in either of them.
\<close>

theorem cleanup_before_top_up:
  assumes "distinct (submitted_jobs s)"
    and "get_submitted_job_info (find_id w) s
           = ((running_ids, queued_ids, completed_ids, missing_ids), s1)"
    and "running = int (length running_ids)"
    and "queued = int (length queued_ids)"
    and "n_submit = (if running + queued < n_wanted s \<and> queued < max_n_queued s
                     then min (n_wanted s - (running + queued)) (max_n_queued s - queued)
                     else 0)"
  shows "\<exists>s2 s' pre post.
           kill_jobs (slurm_kill_job w) (completed_ids @ missing_ids) s1 = Inr s2
           \<and> submitted_jobs s2
               = filter (\<lambda>j. j \<notin> set (completed_ids @ missing_ids)) (submitted_jobs s)
           \<and> events s2
               = events s1 @ map (\<lambda>j. SlurmKill j (slurm_kill_job w j))
                               (completed_ids @ missing_ids)
           \<and> set (running_ids @ queued_ids) \<subseteq> set (submitted_jobs s2)
           \<and> poll w s = Inr s' \<and> events s' = events s @ pre @ post
           \<and> pre = cleanup_events w (submitted_jobs s) \<and> post = top_up_events w s
           \<and> events s @ pre
               = events s2
                 @ (if completed_ids \<noteq> [] then [Log (CompletedJobs completed_ids)] else [])
                 @ (if missing_ids \<noteq> [] then [Log (MissingJobs missing_ids)] else [])
           \<and> post
               = (if running + queued < n_wanted s \<and> queued < max_n_queued s
                  then [Log (StatusSubmit running queued (n_wanted s) n_submit)]
                  else if 2 \<le> verbose s then [Log (Status running queued (n_wanted s))]
                  else [])
                 @ concat (map (submit_events (pid s) (job_command s) n_submit (slurm_submit w))
                             [0..<nat n_submit])
           \<and> submitted_jobs s'
               = foldl (add_job (slurm_submit w)) (submitted_jobs s2) [0..<nat n_submit]
           \<and> set (submitted_jobs s')
               = set (submitted_jobs s2)
                 \<union> {slurm_submit w i |i. i < nat n_submit \<and> 0 < slurm_submit w i}
           \<and> kills pre = completed_ids @ missing_ids \<and> submissions pre = []
           \<and> kills post = []
           \<and> submissions post = map (slurm_submit w) [0..<nat n_submit]
           \<and> set (running_ids @ queued_ids) \<inter> set (completed_ids @ missing_ids) = {}"
proof -
  note eqs = job_lists_eq [OF assms(2)]
  let ?f = "find_id w"
  let ?kept = "filter (\<lambda>j. j \<notin> set (completed_ids @ missing_ids)) (submitted_jobs s)"
  let ?s2 = "s\<lparr>submitted_jobs := ?kept,
               events := events s1 @ map (\<lambda>j. SlurmKill j (slurm_kill_job w j))
                                       (completed_ids @ missing_ids)\<rparr>"
  let ?pre = "cleanup_events w (submitted_jobs s)"
  let ?post = "top_up_events w s"
  have kept: "filter (\<lambda>j. \<not> is_completed ?f j \<and> \<not> is_missing ?f j) (submitted_jobs s) = ?kept"
    by (rule filter_not_killed_lists [OF assms(2)])
  have n: "planned w s = n_submit"
    unfolding planned_eq [OF assms(2)] assms(5) assms(3,4) by simp
  have nr: "n_running w s = running" and nq: "n_queued w s = queued"
    by (simp_all add: n_running_def n_queued_def assms(3,4) eqs(1,2))
  have g: "top_up w s \<longleftrightarrow> running + queued < n_wanted s \<and> queued < max_n_queued s"
    by (simp add: top_up_def nr nq)
  have k: "kill_jobs (slurm_kill_job w) (completed_ids @ missing_ids) s1 = Inr ?s2"
    using cleanup_eq [OF assms(1), of w]
    unfolding kept eqs(3,4) [symmetric] eqs(5) [symmetric]
    by (simp add: eqs(5))
  have r2: "submitted_jobs ?s2 = ?kept"
    by simp
  have e2: "events ?s2 = events s1 @ map (\<lambda>j. SlurmKill j (slurm_kill_job w j))
                                       (completed_ids @ missing_ids)"
    by simp
  have x: "set (running_ids @ queued_ids) \<inter> set (completed_ids @ missing_ids) = {}"
    using running_queued_not_killed [OF assms(2)] by auto
  have sub: "set (running_ids @ queued_ids) \<subseteq> set (submitted_jobs ?s2)"
    using x by (auto simp: eqs(1,2))
  obtain s' where p: "poll w s = Inr s'"
    and ev: "events s' = events s @ ?pre @ ?post"
    and reg: "submitted_jobs s' =
                foldl (add_job (slurm_submit w)) (submitted_jobs ?s2) [0..<nat n_submit]"
    using poll_summary [OF assms(1), of w] unfolding kept n r2 by blast
  have pre: "events s @ ?pre
               = events ?s2
                 @ (if completed_ids \<noteq> [] then [Log (CompletedJobs completed_ids)] else [])
                 @ (if missing_ids \<noteq> [] then [Log (MissingJobs missing_ids)] else [])"
    unfolding e2 cleanup_events_def eqs(3,4) [symmetric]
    by (simp add: eqs(5) del: map_append)
  have post: "?post
               = (if running + queued < n_wanted s \<and> queued < max_n_queued s
                  then [Log (StatusSubmit running queued (n_wanted s) n_submit)]
                  else if 2 \<le> verbose s then [Log (Status running queued (n_wanted s))]
                  else [])
                 @ concat (map (submit_events (pid s) (job_command s) n_submit (slurm_submit w))
                             [0..<nat n_submit])"
    by (simp add: top_up_events_def status_events_def g n nr nq)
  have rs: "set (submitted_jobs s')
               = set (submitted_jobs ?s2)
                 \<union> {slurm_submit w i |i. i < nat n_submit \<and> 0 < slurm_submit w i}"
    unfolding reg set_add_jobs by auto
  have k1: "kills ?pre = completed_ids @ missing_ids"
    by (simp only: kills_cleanup_events eqs(3,4))
  have s1: "submissions ?pre = []"
    by (rule submissions_cleanup_events)
  have k2: "kills ?post = []"
    by (rule kills_top_up_events)
  have s2: "submissions ?post = map (slurm_submit w) [0..<nat n_submit]"
    by (simp only: submissions_top_up_events n)
  show ?thesis
    by (rule exI [of _ ?s2], rule exI [of _ s'], rule exI [of _ ?pre], rule exI [of _ ?post])
       (intro conjI k r2 e2 sub p ev refl pre post reg rs k1 s1 k2 s2 x)
qed

theorem cleanup_before_top_up_witness:
  "distinct (submitted_jobs example_manager)
   \<and> get_submitted_job_info (find_id example_world) example_manager
       = (([1], [2], [3], [4]), example_manager)
   \<and> (\<exists>s2 s' pre post.
         kill_jobs (slurm_kill_job example_world) ([3] @ [4]) example_manager = Inr s2
         \<and> submitted_jobs s2 = [2, 1]
         \<and> poll example_world example_manager = Inr s'
         \<and> events s' = events example_manager @ pre @ post
         \<and> set (submitted_jobs s') = {2, 1, 10, 12}
         \<and> kills pre = [3, 4] \<and> submissions pre = []
         \<and> kills post = [] \<and> submissions post = [10, - 1, 12])"
proof -
  have d: "distinct (submitted_jobs example_manager)"
    by (simp add: example_manager_eq)
  have n: "(if int (length [1::int]) + int (length [2::int]) < n_wanted example_manager
              \<and> int (length [2::int]) < max_n_queued example_manager
            then min (n_wanted example_manager - (int (length [1::int]) + int (length [2::int])))
                     (max_n_queued example_manager - int (length [2::int]))
            else 0) = 3"
    by (simp add: example_manager_eq)
  note inst = cleanup_before_top_up [OF d example_info refl refl refl, unfolded n]
  then obtain s2 s' pre post
    where k: "kill_jobs (slurm_kill_job example_world) ([3] @ [4]) example_manager = Inr s2"
      and r2: "submitted_jobs s2
                 = filter (\<lambda>j. j \<notin> set ([3] @ [4])) (submitted_jobs example_manager)"
      and p: "poll example_world example_manager = Inr s'"
      and ev: "events s' = events example_manager @ pre @ post"
      and rs: "set (submitted_jobs s')
                 = set (submitted_jobs s2)
                   \<union> {slurm_submit example_world i |i.
                        i < nat 3 \<and> 0 < slurm_submit example_world i}"
      and k1: "kills pre = [3] @ [4]" and s1: "submissions pre = []"
      and k2: "kills post = []"
      and s2: "submissions post = map (slurm_submit example_world) [0..<nat 3]"
    by blast
  have r2': "submitted_jobs s2 = [2, 1]"
    using r2 by (simp only: example_facts(2))
  have rs': "set (submitted_jobs s') = {2, 1, 10, 12}"
    using rs example_replies unfolding r2' by auto
  have s2': "submissions post = [10, - 1, 12]"
    using s2 by (simp add: upt_3 example_world_def)
  from k r2' p ev rs' k1 s1 k2 s2'
  have "\<exists>s2 s' pre post.
         kill_jobs (slurm_kill_job example_world) ([3] @ [4]) example_manager = Inr s2
         \<and> submitted_jobs s2 = [2, 1]
         \<and> poll example_world example_manager = Inr s'
         \<and> events s' = events example_manager @ pre @ post
         \<and> set (submitted_jobs s') = {2, 1, 10, 12}
         \<and> kills pre = [3, 4] \<and> submissions pre = []
         \<and> kills post = [] \<and> submissions post = [10, - 1, 12]"
    by auto
  with d example_info show ?thesis
    by blast
qed

subsection \<open>The interrupt\<close>

text \<open>
  An interrupt that reaches the handler. The loop, started in a state without duplicates
  in the registry, runs its cycles without returning; when the interrupt arrives at the
  sleep after them, it returns normally, whatever follows the interrupt in the schedule:
  no further cycle runs. The handler asks the scheduler to kill every identifier that is
  in the registry at that time, each once and in turn, whether the earlier kills
  succeeded or raised, makes no submission, and leaves the registry empty. With an empty
  registry it issues no kill and prints the blank line and the line that it is exiting.
\<close>

lemma interrupt_at_sleep_drains:
  assumes "distinct (submitted_jobs s)"
  shows "\<exists>t s'. cycles ws s = Inr t
           \<and> infinite_poll (map Cycle ws) s = None
           \<and> infinite_poll (map Cycle ws @ Interrupt k # rest) s = Some (Inr s')
           \<and> submitted_jobs s' = []
           \<and> kills (events s') = kills (events t) @ submitted_jobs t
           \<and> submissions (events s') = submissions (events t)
           \<and> events s' = events t @ Log Blank
               # (if submitted_jobs t = [] then [Log CaughtInterruptExiting]
                  else Log (CaughtInterruptCancelling (submitted_jobs t))
                       # map (\<lambda>j. SlurmKill j (k j)) (submitted_jobs t))"
proof -
  obtain t where c: "cycles ws s = Inr t" and d: "distinct (submitted_jobs t)"
    using cycles_distinct [OF assms] by blast
  let ?s' = "t\<lparr>submitted_jobs := [],
               events := events t @ Log Blank
                 # (if submitted_jobs t = [] then [Log CaughtInterruptExiting]
                    else Log (CaughtInterruptCancelling (submitted_jobs t))
                         # map (\<lambda>j. SlurmKill j (k j)) (submitted_jobs t))\<rparr>"
  have run: "infinite_poll (map Cycle ws) s = None"
    using infinite_poll_cycles [of ws "[]" s] by (simp add: c)
  have ret: "infinite_poll (map Cycle ws @ Interrupt k # rest) s = Some (Inr ?s')"
    by (simp add: infinite_poll_cycles c on_interrupt_eq [OF d])
  have reg: "submitted_jobs ?s' = []"
    by simp
  have ev: "events ?s' = events t @ Log Blank
               # (if submitted_jobs t = [] then [Log CaughtInterruptExiting]
                  else Log (CaughtInterruptCancelling (submitted_jobs t))
                       # map (\<lambda>j. SlurmKill j (k j)) (submitted_jobs t))"
    by simp
  have ks: "kills (events ?s') = kills (events t) @ submitted_jobs t"
    unfolding ev by (simp add: kills_append kills_kill_events)
  have ss: "submissions (events ?s') = submissions (events t)"
    unfolding ev by (simp add: submissions_append submissions_kill_events)
  show ?thesis
    by (rule exI [of _ t], rule exI [of _ ?s']) (intro conjI c run ret reg ks ss ev)
qed

text \<open>
  The same holds when the interrupt arrives inside a cycle and is not caught inside
  \<^verbatim>\<open>kill_job\<close> or \<^verbatim>\<open>slurm_submit\<close>, after any number \<open>n\<close> of the effects of that cycle: the part of the cycle
  that ran does not raise, and the handler drains the registry it finds.
\<close>

lemma interrupt_in_cycle_drains:
  assumes "distinct (submitted_jobs s)"
  shows "\<exists>t u s'. cycles ws s = Inr t
           \<and> run (take n (actions w t)) t = Inr u
           \<and> infinite_poll (map Cycle ws @ InterruptedCycle w n k # rest) s = Some (Inr s')
           \<and> submitted_jobs s' = []
           \<and> kills (events s') = kills (events u) @ submitted_jobs u
           \<and> submissions (events s') = submissions (events u)
           \<and> events s' = events u @ Log Blank
               # (if submitted_jobs u = [] then [Log CaughtInterruptExiting]
                  else Log (CaughtInterruptCancelling (submitted_jobs u))
                       # map (\<lambda>j. SlurmKill j (k j)) (submitted_jobs u))"
proof -
  obtain t where c: "cycles ws s = Inr t" and dt: "distinct (submitted_jobs t)"
    using cycles_distinct [OF assms] by blast
  obtain u where r: "run (take n (actions w t)) t = Inr u" and d: "distinct (submitted_jobs u)"
    using run_prefix_distinct [OF dt] by blast
  let ?s' = "u\<lparr>submitted_jobs := [],
               events := events u @ Log Blank
                 # (if submitted_jobs u = [] then [Log CaughtInterruptExiting]
                    else Log (CaughtInterruptCancelling (submitted_jobs u))
                         # map (\<lambda>j. SlurmKill j (k j)) (submitted_jobs u))\<rparr>"
  have ret: "infinite_poll (map Cycle ws @ InterruptedCycle w n k # rest) s = Some (Inr ?s')"
    by (simp add: infinite_poll_cycles c r on_interrupt_eq [OF d])
  have reg: "submitted_jobs ?s' = []"
    by simp
  have ev: "events ?s' = events u @ Log Blank
               # (if submitted_jobs u = [] then [Log CaughtInterruptExiting]
                  else Log (CaughtInterruptCancelling (submitted_jobs u))
                       # map (\<lambda>j. SlurmKill j (k j)) (submitted_jobs u))"
    by simp
  have ks: "kills (events ?s') = kills (events u) @ submitted_jobs u"
    unfolding ev by (simp add: kills_append kills_kill_events)
  have ss: "submissions (events ?s') = submissions (events u)"
    unfolding ev by (simp add: submissions_append submissions_kill_events)
  show ?thesis
    by (rule exI [of _ t], rule exI [of _ u], rule exI [of _ ?s'])
       (intro conjI c r ret reg ks ss ev)
qed

text \<open>
  C8 says that the loop, when it receives an interrupt, stops scheduling cycles and kills
  every identifier in the registry. The code does not do so for an interrupt that
  arrives while a call of the scheduler is in progress: the bare \<^verbatim>\<open>except\<close> of \<^verbatim>\<open>kill_job\<close>
  and of \<^verbatim>\<open>slurm_submit\<close> catches it. In the third run one interrupt arrives during the kill
  of job 3 and one during the first \<^verbatim>\<open>sbatch\<close>: the kill counts as failed, the submission
  as failed, the cycle goes on to submit jobs 11 and 12, the handler never runs (no kill
  of the tracked jobs 1 and 2, no line about an interrupt), and \<^verbatim>\<open>infinite_poll\<close> has not
  returned at the end of the cycle.
\<close>

theorem swallowed_interrupt_no_drain:
  "kill_call swallowing_scheduler 3 = InterruptedCall
   \<and> submit_call swallowing_scheduler 0 = InterruptedCall
   \<and> poll (observed swallowing_scheduler) example_manager =
       Inr (example_manager
              \<lparr>submitted_jobs := [12, 11, 2, 1],
               events := events example_manager
                 @ [SlurmKill 3 False, SlurmKill 4 True,
                    Log (CompletedJobs [3]), Log (MissingJobs [4]),
                    Log (StatusSubmit 1 1 5 3),
                    WriteJobDescription 4242 JOB_COMMAND, SlurmSubmit (- 1),
                    Log (SubmissionFailed 1 3),
                    WriteJobDescription 4242 JOB_COMMAND, SlurmSubmit 11,
                    Log (Submitted 2 3 11),
                    WriteJobDescription 4242 JOB_COMMAND, SlurmSubmit 12,
                    Log (Submitted 3 3 12)]\<rparr>)
   \<and> infinite_poll [Cycle (observed swallowing_scheduler)] example_manager = None"
proof -
  have "kill_call swallowing_scheduler 3 = InterruptedCall"
    and "submit_call swallowing_scheduler 0 = InterruptedCall"
    by (simp_all add: swallowing_scheduler_def)
  moreover have "infinite_poll [Cycle (observed swallowing_scheduler)] example_manager = None"
    by (simp add: swallowed_poll)
  ultimately show ?thesis
    using swallowed_poll by simp
qed

subsection \<open>The four lists\<close>

text \<open>
  C9. On a registry without duplicates, the four lists of \<^verbatim>\<open>get_submitted_job_info\<close>
  have no duplicates, are pairwise disjoint, and hold only members of the registry; the
  query leaves the registry as it is.
\<close>

theorem job_lists_disjoint:
  assumes "distinct (submitted_jobs s)"
    and "get_submitted_job_info f s
           = ((running_ids, queued_ids, completed_ids, missing_ids), s1)"
  shows "distinct running_ids \<and> distinct queued_ids
         \<and> distinct completed_ids \<and> distinct missing_ids
         \<and> set running_ids \<inter> set queued_ids = {}
         \<and> set running_ids \<inter> set completed_ids = {}
         \<and> set running_ids \<inter> set missing_ids = {}
         \<and> set queued_ids \<inter> set completed_ids = {}
         \<and> set queued_ids \<inter> set missing_ids = {}
         \<and> set completed_ids \<inter> set missing_ids = {}
         \<and> set running_ids \<union> set queued_ids \<union> set completed_ids \<union> set missing_ids
             \<subseteq> set (submitted_jobs s)
         \<and> submitted_jobs s1 = submitted_jobs s"
proof -
  note eqs = job_lists_eq [OF assms(2)]
  have d: "distinct running_ids" "distinct queued_ids"
          "distinct completed_ids" "distinct missing_ids"
    using assms(1) by (simp_all add: eqs(1-4))
  have x: "set running_ids \<inter> set queued_ids = {}"
          "set running_ids \<inter> set completed_ids = {}"
          "set running_ids \<inter> set missing_ids = {}"
          "set queued_ids \<inter> set completed_ids = {}"
          "set queued_ids \<inter> set missing_ids = {}"
          "set completed_ids \<inter> set missing_ids = {}"
    unfolding eqs(1-4) by (rule filter_disjoint, simp add: buckets_exclusive)+
  have sub: "set running_ids \<union> set queued_ids \<union> set completed_ids \<union> set missing_ids
               \<subseteq> set (submitted_jobs s)"
    unfolding eqs(1-4) by auto
  have reg: "submitted_jobs s1 = submitted_jobs s"
    by (simp add: eqs(5))
  from d x sub reg show ?thesis
    by blast
qed

theorem job_lists_disjoint_witness:
  "distinct (submitted_jobs example_manager)
   \<and> get_submitted_job_info (find_id example_world) example_manager
       = (([1], [2], [3], [4]), example_manager)
   \<and> set [1] \<union> set [2] \<union> set [3] \<union> set [4] \<subseteq> set (submitted_jobs example_manager)"
proof -
  have d: "distinct (submitted_jobs example_manager)"
    by (simp add: example_manager_eq)
  from job_lists_disjoint [OF d example_info] d example_info show ?thesis
    by blast
qed

subsection \<open>The kills of the cleanup\<close>

text \<open>
  C10. On a registry without duplicates, the identifiers the cleanup of a cycle kills
  (the completed and the missing list, in that order) are members of the registry, each
  occurs once, and each is still in the registry when its turn comes: the kills before it
  succeed in removing their own identifiers and leave it in place, so the removal in
  \<^verbatim>\<open>kill_job\<close> does not raise, the whole cleanup ends normally and \<^verbatim>\<open>poll\<close> does too.
\<close>

theorem cleanup_kills_members:
  assumes "distinct (submitted_jobs s)"
    and "get_submitted_job_info (find_id w) s
           = ((running_ids, queued_ids, completed_ids, missing_ids), s1)"
  shows "distinct (completed_ids @ missing_ids)
         \<and> set (completed_ids @ missing_ids) \<subseteq> set (submitted_jobs s1)
         \<and> (\<forall>pre j post. completed_ids @ missing_ids = pre @ j # post \<longrightarrow>
               (\<exists>t. kill_jobs (slurm_kill_job w) pre s1 = Inr t
                    \<and> j \<in> set (submitted_jobs t)
                    \<and> (\<exists>b t'. kill_job (slurm_kill_job w) j t = Inr (b, t'))))
         \<and> (\<exists>s2. kill_jobs (slurm_kill_job w) (completed_ids @ missing_ids) s1 = Inr s2)
         \<and> (\<exists>s'. poll w s = Inr s')"
proof -
  note eqs = job_lists_eq [OF assms(2)]
  have d: "distinct (completed_ids @ missing_ids)"
    unfolding eqs(3,4) using assms(1) by (rule distinct_completed_missing)
  have sub: "set (completed_ids @ missing_ids) \<subseteq> set (submitted_jobs s1)"
    unfolding eqs(3,4,5) by auto
  have each: "\<forall>pre j post. completed_ids @ missing_ids = pre @ j # post \<longrightarrow>
               (\<exists>t. kill_jobs (slurm_kill_job w) pre s1 = Inr t
                    \<and> j \<in> set (submitted_jobs t)
                    \<and> (\<exists>b t'. kill_job (slurm_kill_job w) j t = Inr (b, t')))"
    using kill_jobs_prefix [OF d sub] by blast
  have all: "\<exists>s2. kill_jobs (slurm_kill_job w) (completed_ids @ missing_ids) s1 = Inr s2"
    using kill_jobs_eq [OF d sub] by blast
  have p: "\<exists>s'. poll w s = Inr s'"
    using poll_result [OF assms(1)] by blast
  from d sub each all p show ?thesis
    by blast
qed

theorem cleanup_kills_members_witness:
  "distinct (submitted_jobs example_manager)
   \<and> get_submitted_job_info (find_id example_world) example_manager
       = (([1], [2], [3], [4]), example_manager)
   \<and> [3] @ [4] = [3] @ 4 # []
   \<and> (\<exists>t. kill_jobs (slurm_kill_job example_world) [3] example_manager = Inr t
          \<and> 4 \<in> set (submitted_jobs t))"
proof -
  have d: "distinct (submitted_jobs example_manager)"
    by (simp add: example_manager_eq)
  have split: "[3] @ [4] = [3] @ 4 # ([]::int list)"
    by simp
  from cleanup_kills_members [OF d example_info] split
  have "\<exists>t. kill_jobs (slurm_kill_job example_world) [3] example_manager = Inr t
          \<and> 4 \<in> set (submitted_jobs t)
          \<and> (\<exists>b t'. kill_job (slurm_kill_job example_world) 4 t = Inr (b, t'))"
    by blast
  with d example_info split show ?thesis
    by blast
qed

end
